theory Spec2Isabelle
  imports Main "HOL-Library.Word" "HOL-Library.Multiset"
begin

section \<open>Wide strings and the library functions the scanner calls\<close>

text \<open>
  The scanner exists in three near-identical sources: \<^verbatim>\<open>fast_scan4.cpp\<close> (no filtering
  in the worker), the unnamed source with global variables (prefix and extension filters), and
  \<^verbatim>\<open>landrys-file-scanner.cpp\<close> (the same logic over a \<^verbatim>\<open>ScanContext\<close>). The model is
  parametrised by the program so that each definition can be read against each source.
\<close>

datatype program = Fast_scan4 | Part_000 | Landrys

text \<open>A \<^verbatim>\<open>std::wstring\<close> is a list of 16-bit code units (\<^verbatim>\<open>wchar_t\<close> on Windows).\<close>

type_synonym wchar = "16 word"
type_synonym wstring = "wchar list"

definition L :: "string \<Rightarrow> wstring" where
  "L s = map of_char s"

definition backslash :: wstring where
  "backslash = [0x5C]"

definition star_pattern :: wstring where
  "star_pattern = [0x5C, 0x2A]"

definition dot :: wchar where
  "dot = 0x2E"

text \<open>
  Reading a NUL-terminated buffer: past the end of the characters the terminator 0 is read.
\<close>

definition c_at :: "wstring \<Rightarrow> nat \<Rightarrow> wchar" where
  "c_at s i = (if i < length s then s ! i else 0)"

definition c_head :: "wstring \<Rightarrow> wchar" where
  "c_head s = (case s of [] \<Rightarrow> 0 | c # _ \<Rightarrow> c)"

text \<open>
  The C runtime's case folding in the default "C" locale (the programs never call
  \<^verbatim>\<open>setlocale\<close>): only the letters A to Z are mapped.
\<close>

definition towlower :: "wchar \<Rightarrow> wchar" where
  "towlower c = (if 0x41 \<le> c \<and> c \<le> 0x5A then c + 0x20 else c)"

text \<open>
  \<^verbatim>\<open>_wcsicmp\<close>: compare the lower-cased characters until they differ or the terminator is
  reached; the result is the difference of the last pair read.
\<close>

fun wcsicmp :: "wstring \<Rightarrow> wstring \<Rightarrow> int" where
  "wcsicmp [] b = uint (towlower 0) - uint (towlower (c_head b))"
| "wcsicmp (x # xs) b =
     (let f = towlower x; l = towlower (c_head b)
      in if f \<noteq> 0 \<and> f = l then wcsicmp xs (tl b) else uint f - uint l)"

text \<open>\<^verbatim>\<open>_wcsnicmp\<close>: the same over at most \<open>count\<close> characters.\<close>

fun wcsnicmp :: "wstring \<Rightarrow> wstring \<Rightarrow> nat \<Rightarrow> int" where
  "wcsnicmp a b 0 = 0"
| "wcsnicmp a b (Suc n) =
     (let f = towlower (c_head a); l = towlower (c_head b)
      in if n \<noteq> 0 \<and> f \<noteq> 0 \<and> f = l then wcsnicmp (tl a) (tl b) n else uint f - uint l)"

text \<open>
  \<^verbatim>\<open>std::wstring::find\<close>: the first position at which the argument occurs, \<open>None\<close> for
  \<^verbatim>\<open>npos\<close>. The comparison is exact, character by character.
\<close>

fun wfind :: "wstring \<Rightarrow> wstring \<Rightarrow> nat option" where
  "wfind [] s = (if s = [] then Some 0 else None)"
| "wfind (h # hs) s =
     (if take (length s) (h # hs) = s then Some 0 else map_option Suc (wfind hs s))"

text \<open>\<^verbatim>\<open>find_last_of\<close> with a one-character argument: the last position of the character.\<close>

fun find_last_of :: "wstring \<Rightarrow> wchar \<Rightarrow> nat option" where
  "find_last_of [] c = None"
| "find_last_of (x # xs) c =
     (case find_last_of xs c of
        Some i \<Rightarrow> Some (Suc i)
      | None \<Rightarrow> if x = c then Some 0 else None)"

section \<open>Configuration and directory entries\<close>

record scan_config =
  ROOT_DIR :: wstring
  PREFIX :: wstring
  OUTPUT_BUFFER_FLUSH_COUNT :: nat
  file_types :: "wstring list"

text \<open>
  What the programs read of a \<^verbatim>\<open>WIN32_FIND_DATAW\<close>: the directory attribute bit and the
  name.
\<close>

record find_data =
  is_directory :: bool
  cFileName :: wstring

text \<open>
  The directory-listing primitive: the entries that \<^verbatim>\<open>FindFirstFile\<close> and the following
  \<^verbatim>\<open>FindNextFileW\<close> calls deliver for a search pattern, or \<open>None\<close> when the first call
  returns \<^verbatim>\<open>INVALID_HANDLE_VALUE\<close> (access denied, path vanished).
\<close>

type_synonym filesystem = "wstring \<Rightarrow> find_data list option"

section \<open>The filter stage\<close>

text \<open>The test that skips the entries \<^verbatim>\<open>.\<close> and \<^verbatim>\<open>..\<close>.\<close>

definition is_dot_or_dotdot :: "wstring \<Rightarrow> bool" where
  "is_dot_or_dotdot name \<longleftrightarrow>
     c_at name 0 = dot \<and> (c_at name 1 = 0 \<or> (c_at name 1 = dot \<and> c_at name 2 = 0))"

text \<open>The prefix test of the seeding loop, on the name of a top-level directory.\<close>

definition seed_prefix_ok :: "scan_config \<Rightarrow> wstring \<Rightarrow> bool" where
  "seed_prefix_ok cfg name \<longleftrightarrow>
     PREFIX cfg = [] \<or> wcsnicmp name (PREFIX cfg) (length (PREFIX cfg)) = 0"

text \<open>
  The prefix test of \<^verbatim>\<open>process_directory\<close>, on the full path of a subdirectory. It is
  \<open>True\<close> when the subdirectory is pruned. \<^verbatim>\<open>fast_scan4.cpp\<close> has no such test.
\<close>

definition pruned :: "program \<Rightarrow> scan_config \<Rightarrow> wstring \<Rightarrow> bool" where
  "pruned prog cfg subdir \<longleftrightarrow>
     prog \<noteq> Fast_scan4 \<and> PREFIX cfg \<noteq> [] \<and> wfind subdir (PREFIX cfg) = None"

text \<open>
  The extension of a path as the programs compute it:
  \<^verbatim>\<open>full_path.substr(full_path.find_last_of(L".") + 1)\<close>. When there is no dot,
  \<^verbatim>\<open>npos + 1\<close> wraps to 0 and the whole path is taken.
\<close>

definition file_ext :: "wstring \<Rightarrow> wstring" where
  "file_ext full_path =
     drop (case find_last_of full_path dot of None \<Rightarrow> 0 | Some i \<Rightarrow> i + 1) full_path"

definition extension_match :: "wstring list \<Rightarrow> wstring \<Rightarrow> bool" where
  "extension_match types full_path \<longleftrightarrow>
     list_ex (\<lambda>ext. wcsicmp (file_ext full_path) ext = 0) types"

text \<open>
  Whether a file goes on to the conversion step. \<^verbatim>\<open>fast_scan4.cpp\<close> has no extension
  filter.
\<close>

definition extension_ok :: "program \<Rightarrow> scan_config \<Rightarrow> wstring \<Rightarrow> bool" where
  "extension_ok prog cfg full_path \<longleftrightarrow>
     prog = Fast_scan4 \<or> file_types cfg = [] \<or> extension_match (file_types cfg) full_path"

section \<open>Seeding the queue\<close>

text \<open>
  The loop over the entries of the root. The pair is the queue and the Active-Work Counter
  (an \<^verbatim>\<open>int\<close> in the sources, modelled unbounded: it would take \<open>2^31\<close> directories
  pending at once to wrap it). Only the later two sources skip \<^verbatim>\<open>.\<close> and \<^verbatim>\<open>..\<close>
  here.
\<close>

fun seed_loop ::
  "program \<Rightarrow> scan_config \<Rightarrow> find_data list \<Rightarrow> wstring list \<times> int \<Rightarrow> wstring list \<times> int"
where
  "seed_loop prog cfg [] qc = qc"
| "seed_loop prog cfg (e # es) (q, c) =
     (if is_directory e then
        (if prog \<noteq> Fast_scan4 \<and> is_dot_or_dotdot (cFileName e) then seed_loop prog cfg es (q, c)
         else if seed_prefix_ok cfg (cFileName e)
           then seed_loop prog cfg es (q @ [ROOT_DIR cfg @ backslash @ cFileName e], c + 1)
           else seed_loop prog cfg es (q, c))
      else seed_loop prog cfg es (q, c))"

definition initialize_directory_queue ::
  "program \<Rightarrow> scan_config \<Rightarrow> filesystem \<Rightarrow> wstring list \<times> int"
where
  "initialize_directory_queue prog cfg fs =
     (case fs (ROOT_DIR cfg @ star_pattern) of
        None \<Rightarrow> ([], 0)
      | Some entries \<Rightarrow> seed_loop prog cfg entries ([], 0))"

section \<open>Shared state, workers and the coordinator\<close>

text \<open>
  Where a thread stands. A worker is \<open>Waiting\<close> at the top of its loop (blocked on the
  condition variable or about to take the queue lock), \<open>Holding\<close> a directory it has
  dequeued and not yet opened, \<open>Enumerating\<close> a directory with the entries still to be
  visited, \<open>Leaving\<close> after the \<^verbatim>\<open>break\<close> and before its final flush, or \<open>Exited\<close>.
\<close>

datatype pc = Waiting | Holding wstring | Enumerating wstring "find_data list" | Leaving | Exited

text \<open>
  The private output buffer is kept as the list of the lines appended to it, each with its
  line terminator; its size in bytes is the length of their concatenation.
\<close>

record worker =
  pc :: pc
  local_out_buf :: "string list"

text \<open>
  The coordinator after the threads are launched: in the polling loop, after the
  \<^verbatim>\<open>break\<close> and before storing the done flag, joining the threads, and after
  \<^verbatim>\<open>fclose\<close>.
\<close>

datatype coordinator_pc = Polling | Signalling | Joining | Finished

record scan_state =
  dir_queue :: "wstring list"
  active_dir_count :: int
  done_flag :: bool
  out_fp :: "string list"
  file_count :: int
  workers :: "worker list"
  coordinator :: coordinator_pc

definition newline :: char where
  "newline = CHR 0x0A"

definition header :: "program \<Rightarrow> string" where
  "header prog =
     (if prog = Landrys then [CHR 0xEF, CHR 0xBB, CHR 0xBF] else []) @ ''File Path'' @ [newline]"

definition buf_size :: "string list \<Rightarrow> nat" where
  "buf_size buf = length (concat buf)"

definition set_pc :: "nat \<Rightarrow> pc \<Rightarrow> scan_state \<Rightarrow> scan_state" where
  "set_pc i p s = s\<lparr>workers := (workers s)[i := (workers s ! i)\<lparr>pc := p\<rparr>]\<rparr>"

definition set_buf :: "nat \<Rightarrow> string list \<Rightarrow> scan_state \<Rightarrow> scan_state" where
  "set_buf i b s = s\<lparr>workers := (workers s)[i := (workers s ! i)\<lparr>local_out_buf := b\<rparr>]\<rparr>"

text \<open>The critical section that pushes a subdirectory and increments the counter.\<close>

definition enqueue :: "wstring \<Rightarrow> scan_state \<Rightarrow> scan_state" where
  "enqueue subdir s =
     s\<lparr>dir_queue := dir_queue s @ [subdir], active_dir_count := active_dir_count s + 1\<rparr>"

text \<open>
  One iteration of the \<^verbatim>\<open>do ... while (FindNextFileW ...)\<close> loop of worker \<open>i\<close>, for the
  entry \<open>e\<close> of directory \<open>dir\<close>. The conversion \<^verbatim>\<open>WideCharToMultiByte\<close> is the parameter
  \<open>utf8\<close>: the bytes it produces, none when it returns 0.
\<close>

definition process_entry ::
  "program \<Rightarrow> scan_config \<Rightarrow> (wstring \<Rightarrow> string) \<Rightarrow> wstring \<Rightarrow> find_data \<Rightarrow> nat \<Rightarrow>
   scan_state \<Rightarrow> scan_state"
where
  "process_entry prog cfg utf8 dir e i s =
     (if is_directory e then
        (if is_dot_or_dotdot (cFileName e) then s
         else let subdir = dir @ backslash @ cFileName e
              in if pruned prog cfg subdir then s else enqueue subdir s)
      else
        (let full_path = dir @ backslash @ cFileName e
         in if \<not> extension_ok prog cfg full_path then s
            else if 0 < length (utf8 full_path) then
              (let buf = local_out_buf (workers s ! i) @ [utf8 full_path @ [newline]];
                   s1 = s\<lparr>file_count := file_count s + 1\<rparr>
               in if OUTPUT_BUFFER_FLUSH_COUNT cfg * 256 \<le> buf_size buf
                  then set_buf i [] (s1\<lparr>out_fp := out_fp s1 @ buf\<rparr>)
                  else set_buf i buf s1)
            else s))"

text \<open>
  The flush on leaving the loop. Afterwards the buffer is gone: cleared by
  \<^verbatim>\<open>flush_buffer\<close> in the last source, destroyed with the thread in the others.
\<close>

definition final_flush :: "nat \<Rightarrow> scan_state \<Rightarrow> scan_state" where
  "final_flush i s =
     (let buf = local_out_buf (workers s ! i)
      in if buf \<noteq> [] then set_buf i [] (s\<lparr>out_fp := out_fp s @ buf\<rparr>) else s)"

text \<open>
  One step of worker \<open>i\<close>; \<open>None\<close> when the worker cannot move (blocked in
  \<^verbatim>\<open>q_cv.wait\<close>, or exited). The wait is read as a guard here: the worker goes on when
  its predicate \<^verbatim>\<open>!dir_queue.empty() || done\<close> holds. When it is woken is the matter of
  the section on the condition variable. The later two sources process a dequeued path only
  when it is not the empty string.
\<close>

definition worker_step ::
  "program \<Rightarrow> scan_config \<Rightarrow> filesystem \<Rightarrow> (wstring \<Rightarrow> string) \<Rightarrow> nat \<Rightarrow> scan_state \<Rightarrow>
   scan_state option"
where
  "worker_step prog cfg fs utf8 i s =
     (if length (workers s) \<le> i then None
      else case pc (workers s ! i) of
        Waiting \<Rightarrow>
          (if done_flag s \<and> dir_queue s = [] then Some (set_pc i Leaving s)
           else if dir_queue s \<noteq> [] then
             (let current_dir = hd (dir_queue s);
                  s1 = s\<lparr>dir_queue := tl (dir_queue s)\<rparr>
              in if prog \<noteq> Fast_scan4 \<and> current_dir = [] then Some s1
                 else Some (set_pc i (Holding current_dir) s1))
           else None)
      | Holding dir \<Rightarrow>
          (case fs (dir @ star_pattern) of
             None \<Rightarrow> Some (set_pc i Waiting (s\<lparr>active_dir_count := active_dir_count s - 1\<rparr>))
           | Some entries \<Rightarrow> Some (set_pc i (Enumerating dir entries) s))
      | Enumerating dir entries \<Rightarrow>
          (case entries of
             [] \<Rightarrow> Some (set_pc i Waiting (s\<lparr>active_dir_count := active_dir_count s - 1\<rparr>))
           | e # es \<Rightarrow>
               Some (process_entry prog cfg utf8 dir e i (set_pc i (Enumerating dir es) s)))
      | Leaving \<Rightarrow> Some (set_pc i Exited (final_flush i s))
      | Exited \<Rightarrow> None)"

text \<open>
  One step of the coordinator. The polling loop is left only when the counter is 0 and the
  queue is empty; a poll that finds work outstanding changes nothing and is not a step.
  Storing the done flag is one step here; the call of \<^verbatim>\<open>notify_all\<close> that follows it
  is a step of its own in the section on the condition variable.
\<close>

definition coordinator_step :: "scan_state \<Rightarrow> scan_state option" where
  "coordinator_step s =
     (case coordinator s of
        Polling \<Rightarrow>
          (if active_dir_count s = 0 \<and> dir_queue s = [] then Some (s\<lparr>coordinator := Signalling\<rparr>)
           else None)
      | Signalling \<Rightarrow> Some (s\<lparr>done_flag := True, coordinator := Joining\<rparr>)
      | Joining \<Rightarrow>
          (if list_all (\<lambda>w. pc w = Exited) (workers s) then Some (s\<lparr>coordinator := Finished\<rparr>)
           else None)
      | Finished \<Rightarrow> None)"

datatype event = Worker nat | Coordinator

definition sys_step ::
  "program \<Rightarrow> scan_config \<Rightarrow> filesystem \<Rightarrow> (wstring \<Rightarrow> string) \<Rightarrow> event \<Rightarrow> scan_state \<Rightarrow>
   scan_state option"
where
  "sys_step prog cfg fs utf8 ev s =
     (case ev of
        Worker i \<Rightarrow> worker_step prog cfg fs utf8 i s
      | Coordinator \<Rightarrow> coordinator_step s)"

text \<open>A run under a schedule: \<open>None\<close> when the schedule names a thread that cannot move.\<close>

fun exec ::
  "program \<Rightarrow> scan_config \<Rightarrow> filesystem \<Rightarrow> (wstring \<Rightarrow> string) \<Rightarrow> event list \<Rightarrow> scan_state \<Rightarrow>
   scan_state option"
where
  "exec prog cfg fs utf8 [] s = Some s"
| "exec prog cfg fs utf8 (ev # evs) s =
     (case sys_step prog cfg fs utf8 ev s of
        None \<Rightarrow> None
      | Some s' \<Rightarrow> exec prog cfg fs utf8 evs s')"

text \<open>
  The state in which \<^verbatim>\<open>main\<close> launches \<open>n\<close> workers, or \<open>None\<close> when seeding found no
  directory and \<^verbatim>\<open>main\<close> returns at once ("No matching directories found").
\<close>

definition launch :: "program \<Rightarrow> scan_config \<Rightarrow> filesystem \<Rightarrow> nat \<Rightarrow> scan_state option" where
  "launch prog cfg fs n =
     (let (q, c) = initialize_directory_queue prog cfg fs
      in if (if prog = Landrys then \<not> 0 < c else c = 0) then None
         else Some \<lparr>dir_queue = q, active_dir_count = c, done_flag = False,
                    out_fp = [header prog], file_count = 0,
                    workers = replicate n \<lparr>pc = Waiting, local_out_buf = []\<rparr>,
                    coordinator = Polling\<rparr>)"

text \<open>
  The content of the output file when \<^verbatim>\<open>main\<close> returns, for a run under the given
  schedule; \<open>None\<close> when the schedule is not a complete run. The first line is the header.
\<close>

definition scan_output ::
  "program \<Rightarrow> scan_config \<Rightarrow> filesystem \<Rightarrow> (wstring \<Rightarrow> string) \<Rightarrow> nat \<Rightarrow> event list \<Rightarrow>
   string list option"
where
  "scan_output prog cfg fs utf8 n sched =
     (case launch prog cfg fs n of
        None \<Rightarrow> Some [header prog]
      | Some s0 \<Rightarrow>
          (case exec prog cfg fs utf8 sched s0 of
             None \<Rightarrow> None
           | Some s \<Rightarrow> if coordinator s = Finished then Some (out_fp s) else None))"

section \<open>Invariants of the termination protocol\<close>

text \<open>
  A worker is busy with a directory from the moment it has dequeued it until it has
  decremented the counter for it.
\<close>

definition busy :: "pc \<Rightarrow> bool" where
  "busy p = (case p of Holding _ \<Rightarrow> True | Enumerating _ _ \<Rightarrow> True | _ \<Rightarrow> False)"

definition pcs :: "scan_state \<Rightarrow> pc list" where
  "pcs s = map pc (workers s)"

text \<open>The number of directories currently held or enumerated by some worker.\<close>

definition in_flight :: "scan_state \<Rightarrow> nat" where
  "in_flight s = length (filter busy (pcs s))"

definition counter_inv :: "scan_state \<Rightarrow> bool" where
  "counter_inv s \<longleftrightarrow>
     active_dir_count s = int (length (dir_queue s)) + int (in_flight s) \<and>
     [] \<notin> set (dir_queue s)"

definition shutdown_inv :: "scan_state \<Rightarrow> bool" where
  "shutdown_inv s \<longleftrightarrow>
     (coordinator s \<noteq> Polling \<longrightarrow> active_dir_count s = 0) \<and>
     (done_flag s \<longleftrightarrow> coordinator s = Joining \<or> coordinator s = Finished) \<and>
     (\<forall>p \<in> set (pcs s). p = Leaving \<or> p = Exited \<longrightarrow> done_flag s) \<and>
     (coordinator s = Finished \<longrightarrow> (\<forall>p \<in> set (pcs s). p = Exited))"

text \<open>
  The comparison the specification asks for at the deeper levels: the prefix occurs in the
  path when case is ignored.
\<close>

definition spec_contains_ci :: "wstring \<Rightarrow> wstring \<Rightarrow> bool" where
  "spec_contains_ci path prefix \<longleftrightarrow> wfind (map towlower path) (map towlower prefix) \<noteq> None"

section \<open>What one entry contributes\<close>

text \<open>
  Two views of \<^verbatim>\<open>process_directory\<close>'s loop body, proved equal to \<open>process_entry\<close> below:
  the subdirectory an entry makes the worker enqueue, and the line it makes the worker append.
\<close>

definition entry_subdir :: "program \<Rightarrow> scan_config \<Rightarrow> wstring \<Rightarrow> find_data \<Rightarrow> wstring option" where
  "entry_subdir prog cfg dir e =
     (if is_directory e \<and> \<not> is_dot_or_dotdot (cFileName e) \<and>
         \<not> pruned prog cfg (dir @ backslash @ cFileName e)
      then Some (dir @ backslash @ cFileName e) else None)"

definition entry_line ::
  "program \<Rightarrow> scan_config \<Rightarrow> (wstring \<Rightarrow> string) \<Rightarrow> wstring \<Rightarrow> find_data \<Rightarrow> string option"
where
  "entry_line prog cfg utf8 dir e =
     (if \<not> is_directory e \<and> extension_ok prog cfg (dir @ backslash @ cFileName e) \<and>
         utf8 (dir @ backslash @ cFileName e) \<noteq> []
      then Some (utf8 (dir @ backslash @ cFileName e) @ [newline]) else None)"

definition append_line :: "scan_config \<Rightarrow> string \<Rightarrow> nat \<Rightarrow> scan_state \<Rightarrow> scan_state" where
  "append_line cfg line i s =
     (let buf = local_out_buf (workers s ! i) @ [line]
      in if OUTPUT_BUFFER_FLUSH_COUNT cfg * 256 \<le> buf_size buf
         then set_buf i [] (s\<lparr>file_count := file_count s + 1, out_fp := out_fp s @ buf\<rparr>)
         else set_buf i buf (s\<lparr>file_count := file_count s + 1\<rparr>))"

text \<open>The number of lines waiting in the private buffers of the workers.\<close>

definition buffered :: "scan_state \<Rightarrow> nat" where
  "buffered s = sum_list (map (\<lambda>w. length (local_out_buf w)) (workers s))"

definition output_inv :: "program \<Rightarrow> scan_state \<Rightarrow> bool" where
  "output_inv prog s \<longleftrightarrow>
     out_fp s \<noteq> [] \<and> hd (out_fp s) = header prog \<and>
     file_count s = int (length (tl (out_fp s))) + int (buffered s) \<and>
     (\<forall>w \<in> set (workers s). pc w = Exited \<longrightarrow> local_out_buf w = [])"

section \<open>The sequential reading of a scan\<close>

text \<open>
  The lines a traversal of one directory produces when it is done by a single thread, depth
  first: nothing for a directory that cannot be listed; otherwise, entry by entry, the lines
  of each subdirectory that is enqueued and one line for each file that is appended. The
  multiset records how often each line is produced.
\<close>

inductive yields ::
    "program \<Rightarrow> scan_config \<Rightarrow> filesystem \<Rightarrow> (wstring \<Rightarrow> string) \<Rightarrow> wstring \<Rightarrow>
     string multiset \<Rightarrow> bool"
  and yields_entries ::
    "program \<Rightarrow> scan_config \<Rightarrow> filesystem \<Rightarrow> (wstring \<Rightarrow> string) \<Rightarrow> wstring \<Rightarrow>
     find_data list \<Rightarrow> string multiset \<Rightarrow> bool"
  for prog cfg fs utf8
where
  unreadable: "fs (dir @ star_pattern) = None \<Longrightarrow> yields prog cfg fs utf8 dir {#}"
| listed:
    "fs (dir @ star_pattern) = Some entries \<Longrightarrow> yields_entries prog cfg fs utf8 dir entries M \<Longrightarrow>
     yields prog cfg fs utf8 dir M"
| no_more: "yields_entries prog cfg fs utf8 dir [] {#}"
| subdirectory:
    "entry_subdir prog cfg dir e = Some subdir \<Longrightarrow> yields prog cfg fs utf8 subdir M \<Longrightarrow>
     yields_entries prog cfg fs utf8 dir es N \<Longrightarrow>
     yields_entries prog cfg fs utf8 dir (e # es) (M + N)"
| matched_file:
    "entry_subdir prog cfg dir e = None \<Longrightarrow> entry_line prog cfg utf8 dir e = Some line \<Longrightarrow>
     yields_entries prog cfg fs utf8 dir es N \<Longrightarrow>
     yields_entries prog cfg fs utf8 dir (e # es) (add_mset line N)"
| skipped:
    "entry_subdir prog cfg dir e = None \<Longrightarrow> entry_line prog cfg utf8 dir e = None \<Longrightarrow>
     yields_entries prog cfg fs utf8 dir es N \<Longrightarrow>
     yields_entries prog cfg fs utf8 dir (e # es) N"

text \<open>
  The relation can be run: given the directory, it enumerates the multisets of lines.
\<close>

code_pred (modes: i \<Rightarrow> i \<Rightarrow> i \<Rightarrow> i \<Rightarrow> i \<Rightarrow> o \<Rightarrow> bool as yields_lines) yields .

text \<open>The elements of a list are related to multisets whose sum is the given one.\<close>

inductive sums_to :: "('a \<Rightarrow> 'b multiset \<Rightarrow> bool) \<Rightarrow> 'a list \<Rightarrow> 'b multiset \<Rightarrow> bool"
  for P
where
  sums_Nil: "sums_to P [] {#}"
| sums_Cons: "P x M \<Longrightarrow> sums_to P xs N \<Longrightarrow> sums_to P (x # xs) (M + N)"

text \<open>
  The lines of a whole scan: those of the directories that seeding puts in the queue. They
  depend on the program, the configuration and the file system only.
\<close>

definition scan_yields ::
  "program \<Rightarrow> scan_config \<Rightarrow> filesystem \<Rightarrow> (wstring \<Rightarrow> string) \<Rightarrow> string multiset \<Rightarrow> bool"
where
  "scan_yields prog cfg fs utf8 M \<longleftrightarrow>
     sums_to (yields prog cfg fs utf8) (fst (initialize_directory_queue prog cfg fs)) M"

text \<open>The lines a worker still owes: those in its buffer and those of its unfinished work.\<close>

definition worker_yields ::
  "program \<Rightarrow> scan_config \<Rightarrow> filesystem \<Rightarrow> (wstring \<Rightarrow> string) \<Rightarrow> worker \<Rightarrow>
   string multiset \<Rightarrow> bool"
where
  "worker_yields prog cfg fs utf8 w M \<longleftrightarrow>
     (\<exists>N. M = mset (local_out_buf w) + N \<and>
        (case pc w of
           Holding d \<Rightarrow> yields prog cfg fs utf8 d N
         | Enumerating d es \<Rightarrow> yields_entries prog cfg fs utf8 d es N
         | _ \<Rightarrow> N = {#}))"

definition lines_inv ::
  "program \<Rightarrow> scan_config \<Rightarrow> filesystem \<Rightarrow> (wstring \<Rightarrow> string) \<Rightarrow> string multiset \<Rightarrow>
   scan_state \<Rightarrow> bool"
where
  "lines_inv prog cfg fs utf8 M s \<longleftrightarrow>
     (\<exists>Q W. sums_to (yields prog cfg fs utf8) (dir_queue s) Q \<and>
            sums_to (worker_yields prog cfg fs utf8) (workers s) W \<and>
            mset (tl (out_fp s)) + Q + W = M)"

text \<open>All invariants together.\<close>

definition scan_inv ::
  "program \<Rightarrow> scan_config \<Rightarrow> filesystem \<Rightarrow> (wstring \<Rightarrow> string) \<Rightarrow> string multiset \<Rightarrow>
   scan_state \<Rightarrow> bool"
where
  "scan_inv prog cfg fs utf8 M s \<longleftrightarrow>
     counter_inv s \<and> shutdown_inv s \<and> output_inv prog s \<and> lines_inv prog cfg fs utf8 M s"

section \<open>Progress of the scan\<close>

text \<open>
  The subdirectories a worker can enqueue from a directory: its listed directory entries other
  than the two self-references. A directory tree is finite when this relation is well-founded
  (every listing is a finite list).
\<close>

definition subdir_rel :: "filesystem \<Rightarrow> (wstring \<times> wstring) set" where
  "subdir_rel fs =
     {(c, d). \<exists>es e. fs (d @ star_pattern) = Some es \<and> e \<in> set es \<and> is_directory e \<and>
        \<not> is_dot_or_dotdot (cFileName e) \<and> c = d @ backslash @ cFileName e}"

text \<open>
  The outstanding work as a multiset of items: a directory with the stage it is in (2 queued,
  1 held, 0 being enumerated) and the number of entries still to visit.
\<close>

type_synonym work_item = "wstring \<times> nat \<times> nat"

definition item_order :: "filesystem \<Rightarrow> (work_item \<times> work_item) set" where
  "item_order fs = subdir_rel fs <*lex*> less_than <*lex*> less_than"

definition pc_items :: "pc \<Rightarrow> work_item multiset" where
  "pc_items p =
     (case p of
        Holding d \<Rightarrow> {#(d, 1, 0)#}
      | Enumerating d es \<Rightarrow> {#(d, 0, length es)#}
      | _ \<Rightarrow> {#})"

definition work_items :: "scan_state \<Rightarrow> work_item multiset" where
  "work_items s =
     image_mset (\<lambda>d. (d, 2, 0)) (mset (dir_queue s)) + sum_list (map pc_items (pcs s))"

definition pc_rank :: "pc \<Rightarrow> nat" where
  "pc_rank p = (case p of Leaving \<Rightarrow> 1 | Exited \<Rightarrow> 0 | _ \<Rightarrow> 2)"

definition control_rank :: "scan_state \<Rightarrow> nat" where
  "control_rank s =
     (case coordinator s of Polling \<Rightarrow> 3 | Signalling \<Rightarrow> 2 | Joining \<Rightarrow> 1 | Finished \<Rightarrow> 0) +
     sum_list (map pc_rank (pcs s))"

definition progress_order :: "filesystem \<Rightarrow> (scan_state \<times> scan_state) set" where
  "progress_order fs =
     inv_image (mult (item_order fs) <*lex*> less_than) (\<lambda>s. (work_items s, control_rank s))"

text \<open>The entries a worker still has to visit are the rest of the directory's listing.\<close>

definition listing_inv :: "filesystem \<Rightarrow> scan_state \<Rightarrow> bool" where
  "listing_inv fs s \<longleftrightarrow>
     (\<forall>p \<in> set (pcs s). \<forall>d es. p = Enumerating d es \<longrightarrow>
        (\<exists>pre. fs (d @ star_pattern) = Some (pre @ es)))"

text \<open>The state in which \<^verbatim>\<open>main\<close> has joined all workers and closed the file.\<close>

definition final :: "scan_state \<Rightarrow> bool" where
  "final s \<longleftrightarrow>
     coordinator s = Finished \<and> done_flag s \<and> active_dir_count s = 0 \<and> dir_queue s = [] \<and>
     list_all (\<lambda>w. pc w = Exited) (workers s)"

section \<open>The condition variable\<close>

text \<open>
  The steps above read \<^verbatim>\<open>q_cv.wait(lk, pred)\<close> as a guard: a waiting worker goes on as soon
  as the predicate holds. Every state the threads reach is reached that way, because a
  wake-up only lets a worker test the predicate again; what the guard leaves open is whether
  the wake-up arrives. The steps below add just that. \<^verbatim>\<open>wait(lk, pred)\<close> is
  \<^verbatim>\<open>while (!pred()) wait(lk)\<close>: a worker that is \<open>Awake\<close> at the top of its loop takes
  \<^verbatim>\<open>q_m\<close> and tests the predicate; when it is false the worker is \<open>Parking\<close>, still holding
  \<^verbatim>\<open>q_m\<close>, until \<^verbatim>\<open>wait(lk)\<close> releases \<^verbatim>\<open>q_m\<close> and blocks it, and from then on it is
  \<open>Asleep\<close>. A sleeping worker moves again only when a notification wakes it; the wake-ups
  without a notification that the library permits, and does not promise, are left out.
\<close>

datatype wait_pc = Awake | Parking | Asleep

text \<open>
  The shared state together with where each worker stands towards \<^verbatim>\<open>q_cv\<close>, and whether
  \<^verbatim>\<open>main\<close> has called \<^verbatim>\<open>notify_all\<close> after storing the done flag.
\<close>

record cv_state =
  shared :: scan_state
  q_cv :: "wait_pc list"
  notified :: bool

text \<open>
  \<^verbatim>\<open>q_m\<close> is held between two steps only by a worker that has found the predicate false
  and has not yet blocked; every other critical section is one step.
\<close>

definition q_m_held :: "cv_state \<Rightarrow> bool" where
  "q_m_held t \<longleftrightarrow> Parking \<in> set (q_cv t)"

text \<open>
  \<^verbatim>\<open>notify_one\<close> wakes one of the workers that sleep at that moment, here the first, and
  none when none sleeps; \<^verbatim>\<open>notify_all\<close> wakes all that sleep at that moment. Neither
  leaves anything behind for a worker that blocks later. (\<^verbatim>\<open>main\<close>, which waits on the
  same condition variable with a time-out while it polls, is not counted among the sleepers:
  it goes on by itself.)
\<close>

fun wake_one :: "wait_pc list \<Rightarrow> wait_pc list" where
  "wake_one [] = []"
| "wake_one (w # ws) = (if w = Asleep then Awake # ws else w # wake_one ws)"

definition notify_one :: "cv_state \<Rightarrow> cv_state" where
  "notify_one t = t\<lparr>q_cv := wake_one (q_cv t)\<rparr>"

definition notify_all :: "cv_state \<Rightarrow> cv_state" where
  "notify_all t = t\<lparr>q_cv := map (\<lambda>w. if w = Asleep then Awake else w) (q_cv t)\<rparr>"

text \<open>
  One step of worker \<open>i\<close>. At the top of the loop the worker needs \<^verbatim>\<open>q_m\<close>; with the
  predicate \<^verbatim>\<open>!dir_queue.empty() || done\<close> false it parks, otherwise it leaves or dequeues
  as in \<open>worker_step\<close>. An entry that makes it enqueue a subdirectory needs \<^verbatim>\<open>q_m\<close> too and
  is followed by \<^verbatim>\<open>notify_one\<close>, taken in the same step. All other steps are those of
  \<open>worker_step\<close>.
\<close>

definition cv_worker_step ::
  "program \<Rightarrow> scan_config \<Rightarrow> filesystem \<Rightarrow> (wstring \<Rightarrow> string) \<Rightarrow> nat \<Rightarrow> cv_state \<Rightarrow>
   cv_state option"
where
  "cv_worker_step prog cfg fs utf8 i t =
     (if length (workers (shared t)) \<le> i \<or> length (q_cv t) \<le> i then None
      else case q_cv t ! i of
        Asleep \<Rightarrow> None
      | Parking \<Rightarrow> Some (t\<lparr>q_cv := (q_cv t)[i := Asleep]\<rparr>)
      | Awake \<Rightarrow>
          (case pc (workers (shared t) ! i) of
             Waiting \<Rightarrow>
               (if q_m_held t then None
                else if dir_queue (shared t) = [] \<and> \<not> done_flag (shared t)
                  then Some (t\<lparr>q_cv := (q_cv t)[i := Parking]\<rparr>)
                  else map_option (\<lambda>s. t\<lparr>shared := s\<rparr>)
                         (worker_step prog cfg fs utf8 i (shared t)))
           | Enumerating dir (e # es) \<Rightarrow>
               (if entry_subdir prog cfg dir e = None
                then map_option (\<lambda>s. t\<lparr>shared := s\<rparr>)
                       (worker_step prog cfg fs utf8 i (shared t))
                else if q_m_held t then None
                else map_option (\<lambda>s. notify_one (t\<lparr>shared := s\<rparr>))
                       (worker_step prog cfg fs utf8 i (shared t)))
           | _ \<Rightarrow>
               map_option (\<lambda>s. t\<lparr>shared := s\<rparr>) (worker_step prog cfg fs utf8 i (shared t))))"

text \<open>
  One step of \<^verbatim>\<open>main\<close>. The poll needs \<^verbatim>\<open>q_m\<close>, which is released on leaving the loop;
  \<^verbatim>\<open>done.store(true)\<close> and \<^verbatim>\<open>q_cv.notify_all()\<close> then run without it, as two steps; the
  join is as in \<open>coordinator_step\<close>.
\<close>

definition cv_coordinator_step :: "cv_state \<Rightarrow> cv_state option" where
  "cv_coordinator_step t =
     (case coordinator (shared t) of
        Polling \<Rightarrow>
          (if q_m_held t then None
           else map_option (\<lambda>s. t\<lparr>shared := s\<rparr>) (coordinator_step (shared t)))
      | Signalling \<Rightarrow> map_option (\<lambda>s. t\<lparr>shared := s\<rparr>) (coordinator_step (shared t))
      | Joining \<Rightarrow>
          (if \<not> notified t then Some ((notify_all t)\<lparr>notified := True\<rparr>)
           else map_option (\<lambda>s. t\<lparr>shared := s\<rparr>) (coordinator_step (shared t)))
      | Finished \<Rightarrow> None)"

definition cv_sys_step ::
  "program \<Rightarrow> scan_config \<Rightarrow> filesystem \<Rightarrow> (wstring \<Rightarrow> string) \<Rightarrow> event \<Rightarrow> cv_state \<Rightarrow>
   cv_state option"
where
  "cv_sys_step prog cfg fs utf8 ev t =
     (case ev of
        Worker i \<Rightarrow> cv_worker_step prog cfg fs utf8 i t
      | Coordinator \<Rightarrow> cv_coordinator_step t)"

fun cv_exec ::
  "program \<Rightarrow> scan_config \<Rightarrow> filesystem \<Rightarrow> (wstring \<Rightarrow> string) \<Rightarrow> event list \<Rightarrow> cv_state \<Rightarrow>
   cv_state option"
where
  "cv_exec prog cfg fs utf8 [] t = Some t"
| "cv_exec prog cfg fs utf8 (ev # evs) t =
     (case cv_sys_step prog cfg fs utf8 ev t of
        None \<Rightarrow> None
      | Some t' \<Rightarrow> cv_exec prog cfg fs utf8 evs t')"

text \<open>A state in which no worker waits on the condition variable.\<close>

definition all_awake :: "bool \<Rightarrow> scan_state \<Rightarrow> cv_state" where
  "all_awake b s = \<lparr>shared = s, q_cv = replicate (length (workers s)) Awake, notified = b\<rparr>"

definition cv_launch :: "program \<Rightarrow> scan_config \<Rightarrow> filesystem \<Rightarrow> nat \<Rightarrow> cv_state option" where
  "cv_launch prog cfg fs n = map_option (all_awake False) (launch prog cfg fs n)"

definition cv_scan_output ::
  "program \<Rightarrow> scan_config \<Rightarrow> filesystem \<Rightarrow> (wstring \<Rightarrow> string) \<Rightarrow> nat \<Rightarrow> event list \<Rightarrow>
   string list option"
where
  "cv_scan_output prog cfg fs utf8 n sched =
     (case cv_launch prog cfg fs n of
        None \<Rightarrow> Some [header prog]
      | Some t0 \<Rightarrow>
          (case cv_exec prog cfg fs utf8 sched t0 of
             None \<Rightarrow> None
           | Some t \<Rightarrow> if coordinator (shared t) = Finished then Some (out_fp (shared t)) else None))"

section \<open>A small file system used for the concrete runs\<close>

text \<open>
  The root \<^verbatim>\<open>C:\<close> holds the directories \<^verbatim>\<open>A\<close> and \<^verbatim>\<open>B\<close> and the file
  \<^verbatim>\<open>file1.txt\<close>; \<^verbatim>\<open>A\<close> holds two files, the directory \<^verbatim>\<open>sub\<close> and the directory
  \<^verbatim>\<open>locked\<close>, which cannot be listed. Every listing starts with the two self-references,
  as on a real volume.
\<close>

definition ex_dir :: "string \<Rightarrow> find_data" where
  "ex_dir n = \<lparr>is_directory = True, cFileName = L n\<rparr>"

definition ex_file :: "string \<Rightarrow> find_data" where
  "ex_file n = \<lparr>is_directory = False, cFileName = L n\<rparr>"

definition ex_fs :: filesystem where
  "ex_fs p =
     (if p = L ''C:'' @ star_pattern then
        Some [ex_dir ''.'', ex_dir ''..'', ex_dir ''A'', ex_dir ''B'', ex_file ''file1.txt'']
      else if p = L ''C:'' @ backslash @ L ''A'' @ star_pattern then
        Some [ex_dir ''.'', ex_dir ''..'', ex_file ''a.txt'', ex_file ''b.doc'', ex_dir ''sub'',
              ex_dir ''locked'']
      else if p = L ''C:'' @ backslash @ L ''A'' @ backslash @ L ''sub'' @ star_pattern then
        Some [ex_dir ''.'', ex_dir ''..'', ex_file ''c.txt'']
      else if p = L ''C:'' @ backslash @ L ''B'' @ star_pattern then
        Some [ex_dir ''.'', ex_dir ''..'', ex_file ''d.txt'']
      else None)"

definition ex_cfg :: scan_config where
  "ex_cfg = \<lparr>ROOT_DIR = L ''C:'', PREFIX = L ''A'', OUTPUT_BUFFER_FLUSH_COUNT = 5000,
             file_types = [L ''txt'']\<rparr>"

text \<open>A conversion that succeeds on every path: one byte per code unit.\<close>

definition ex_utf8 :: "wstring \<Rightarrow> string" where
  "ex_utf8 w = map (\<lambda>c. char_of (unat c)) w"

text \<open>
  A complete run of two workers. Worker 0 dequeues \<^verbatim>\<open>C:\A\<close> and discovers both of its
  subdirectories in one burst while worker 1 waits; at the end worker 1 flushes first.
\<close>

definition ex_sched :: "event list" where
  "ex_sched =
     [Worker 0, Worker 0, Worker 0, Worker 0, Worker 0, Worker 0, Worker 0,
      Worker 0,
      Worker 0,
      Worker 1, Worker 1, Worker 0,
      Worker 0,
      Worker 1, Worker 1, Worker 1, Worker 1,
      Coordinator, Coordinator,
      Worker 0,
      Worker 1, Worker 1, Worker 0,
      Coordinator]"

abbreviation ex_A :: wstring where
  "ex_A \<equiv> L ''C:'' @ backslash @ L ''A''"

abbreviation ex_sub :: wstring where
  "ex_sub \<equiv> L ''C:'' @ backslash @ L ''A'' @ backslash @ L ''sub''"

abbreviation ex_locked :: wstring where
  "ex_locked \<equiv> L ''C:'' @ backslash @ L ''A'' @ backslash @ L ''locked''"

abbreviation ex_line_a :: string where
  "ex_line_a \<equiv> ex_utf8 (L ''C:'' @ backslash @ L ''A'' @ backslash @ L ''a.txt'') @ [newline]"

abbreviation ex_line_c :: string where
  "ex_line_c \<equiv>
     ex_utf8 (L ''C:'' @ backslash @ L ''A'' @ backslash @ L ''sub'' @ backslash @ L ''c.txt'')
       @ [newline]"

text \<open>The states of that run after 0, 7, 8, 9, 12, 13, 17, 19, 20, 23 and 24 steps.\<close>

definition ex_s0 :: scan_state where
  "ex_s0 =
     \<lparr>dir_queue = [ex_A], active_dir_count = 1, done_flag = False,
      out_fp = [header Landrys], file_count = 0,
      workers = [\<lparr>pc = Waiting, local_out_buf = []\<rparr>, \<lparr>pc = Waiting, local_out_buf = []\<rparr>],
      coordinator = Polling\<rparr>"

definition ex_s7 :: scan_state where
  "ex_s7 =
     \<lparr>dir_queue = [ex_sub], active_dir_count = 2, done_flag = False,
      out_fp = [header Landrys], file_count = 1,
      workers = [\<lparr>pc = Enumerating ex_A [ex_dir ''locked''], local_out_buf = [ex_line_a]\<rparr>,
                 \<lparr>pc = Waiting, local_out_buf = []\<rparr>],
      coordinator = Polling\<rparr>"

definition ex_s8 :: scan_state where
  "ex_s8 =
     \<lparr>dir_queue = [ex_sub, ex_locked], active_dir_count = 3, done_flag = False,
      out_fp = [header Landrys], file_count = 1,
      workers = [\<lparr>pc = Enumerating ex_A [], local_out_buf = [ex_line_a]\<rparr>,
                 \<lparr>pc = Waiting, local_out_buf = []\<rparr>],
      coordinator = Polling\<rparr>"

definition ex_s9 :: scan_state where
  "ex_s9 =
     \<lparr>dir_queue = [ex_sub, ex_locked], active_dir_count = 2, done_flag = False,
      out_fp = [header Landrys], file_count = 1,
      workers = [\<lparr>pc = Waiting, local_out_buf = [ex_line_a]\<rparr>,
                 \<lparr>pc = Waiting, local_out_buf = []\<rparr>],
      coordinator = Polling\<rparr>"

definition ex_s12 :: scan_state where
  "ex_s12 =
     \<lparr>dir_queue = [], active_dir_count = 2, done_flag = False,
      out_fp = [header Landrys], file_count = 1,
      workers = [\<lparr>pc = Holding ex_locked, local_out_buf = [ex_line_a]\<rparr>,
                 \<lparr>pc = Enumerating ex_sub [ex_dir ''.'', ex_dir ''..'', ex_file ''c.txt''],
                  local_out_buf = []\<rparr>],
      coordinator = Polling\<rparr>"

definition ex_s13 :: scan_state where
  "ex_s13 =
     \<lparr>dir_queue = [], active_dir_count = 1, done_flag = False,
      out_fp = [header Landrys], file_count = 1,
      workers = [\<lparr>pc = Waiting, local_out_buf = [ex_line_a]\<rparr>,
                 \<lparr>pc = Enumerating ex_sub [ex_dir ''.'', ex_dir ''..'', ex_file ''c.txt''],
                  local_out_buf = []\<rparr>],
      coordinator = Polling\<rparr>"

definition ex_s17 :: scan_state where
  "ex_s17 =
     \<lparr>dir_queue = [], active_dir_count = 0, done_flag = False,
      out_fp = [header Landrys], file_count = 2,
      workers = [\<lparr>pc = Waiting, local_out_buf = [ex_line_a]\<rparr>,
                 \<lparr>pc = Waiting, local_out_buf = [ex_line_c]\<rparr>],
      coordinator = Polling\<rparr>"

definition ex_s19 :: scan_state where
  "ex_s19 =
     \<lparr>dir_queue = [], active_dir_count = 0, done_flag = True,
      out_fp = [header Landrys], file_count = 2,
      workers = [\<lparr>pc = Waiting, local_out_buf = [ex_line_a]\<rparr>,
                 \<lparr>pc = Waiting, local_out_buf = [ex_line_c]\<rparr>],
      coordinator = Joining\<rparr>"

definition ex_s20 :: scan_state where
  "ex_s20 =
     \<lparr>dir_queue = [], active_dir_count = 0, done_flag = True,
      out_fp = [header Landrys], file_count = 2,
      workers = [\<lparr>pc = Leaving, local_out_buf = [ex_line_a]\<rparr>,
                 \<lparr>pc = Waiting, local_out_buf = [ex_line_c]\<rparr>],
      coordinator = Joining\<rparr>"

definition ex_s23 :: scan_state where
  "ex_s23 =
     \<lparr>dir_queue = [], active_dir_count = 0, done_flag = True,
      out_fp = [header Landrys, ex_line_c, ex_line_a], file_count = 2,
      workers = [\<lparr>pc = Exited, local_out_buf = []\<rparr>, \<lparr>pc = Exited, local_out_buf = []\<rparr>],
      coordinator = Joining\<rparr>"

definition ex_final :: scan_state where
  "ex_final = ex_s23\<lparr>coordinator := Finished\<rparr>"

text \<open>
  A run of the same two workers, with the condition variable, in which worker 0 misses the
  last wake-up. Worker 0 dequeues \<^verbatim>\<open>C:\A\<close>; worker 1 finds the queue empty and goes to
  sleep; worker 0 discovers \<^verbatim>\<open>sub\<close>, and its \<^verbatim>\<open>notify_one\<close> wakes worker 1, then
  \<^verbatim>\<open>locked\<close>; the two workers finish the three directories. Then worker 1 finds the queue
  empty and goes to sleep again; \<^verbatim>\<open>main\<close> polls and leaves its loop; worker 0 takes
  \<^verbatim>\<open>q_m\<close> and finds its predicate false; \<^verbatim>\<open>main\<close> stores the done flag and calls
  \<^verbatim>\<open>notify_all\<close>, which wakes worker 1; worker 0 blocks; worker 1 sees the flag, leaves
  its loop and flushes.
\<close>

definition ex_sched_window :: "event list" where
  "ex_sched_window =
     [Worker 0, Worker 1, Worker 1, Worker 0, Worker 0, Worker 0, Worker 0, Worker 0, Worker 0,
      Worker 0, Worker 0,
      Worker 1, Worker 1, Worker 0,
      Worker 0,
      Worker 1, Worker 1, Worker 1, Worker 1,
      Worker 1, Worker 1,
      Coordinator,
      Worker 0,
      Coordinator, Coordinator]"

definition ex_sched_hang :: "event list" where
  "ex_sched_hang = ex_sched_window @ [Worker 0, Worker 1, Worker 1]"

text \<open>
  The state after \<^verbatim>\<open>notify_all\<close>, in which worker 0 still holds \<^verbatim>\<open>q_m\<close> and has not
  blocked yet, and the state that the run ends in.
\<close>

definition ex_parked :: cv_state where
  "ex_parked = \<lparr>shared = ex_s19, q_cv = [Parking, Awake], notified = True\<rparr>"

definition ex_hang :: cv_state where
  "ex_hang =
     \<lparr>shared =
        \<lparr>dir_queue = [], active_dir_count = 0, done_flag = True,
         out_fp = [header Landrys, ex_line_c], file_count = 2,
         workers = [\<lparr>pc = Waiting, local_out_buf = [ex_line_a]\<rparr>,
                    \<lparr>pc = Exited, local_out_buf = []\<rparr>],
         coordinator = Joining\<rparr>,
      q_cv = [Asleep, Awake], notified = True\<rparr>"

text \<open>The inputs at which the sources depart from the specification.\<close>

definition cfg_proj :: scan_config where
  "cfg_proj = \<lparr>ROOT_DIR = L ''C:'', PREFIX = L ''proj'', OUTPUT_BUFFER_FLUSH_COUNT = 5000,
               file_types = []\<rparr>"

definition cfg_archive :: scan_config where
  "cfg_archive = \<lparr>ROOT_DIR = L ''C:'', PREFIX = [], OUTPUT_BUFFER_FLUSH_COUNT = 5000,
                  file_types = [L ''data'' @ backslash @ L ''archive'']\<rparr>"

definition cfg_all :: scan_config where
  "cfg_all = \<lparr>ROOT_DIR = L ''C:'', PREFIX = [], OUTPUT_BUFFER_FLUSH_COUNT = 5000,
              file_types = []\<rparr>"

text \<open>The same scan done by a single worker.\<close>

definition ex_sched_single :: "event list" where
  "ex_sched_single =
     [Worker 0, Worker 0, Worker 0, Worker 0, Worker 0, Worker 0, Worker 0, Worker 0, Worker 0,
      Worker 0, Worker 0, Worker 0, Worker 0, Worker 0, Worker 0,
      Worker 0, Worker 0,
      Coordinator, Coordinator, Worker 0, Worker 0, Coordinator]"

text \<open>
  A root that holds nothing but one file. Its self-reference \<^verbatim>\<open>C:\.\<close> lists it again;
  its parent cannot be listed.
\<close>

definition fs_flat :: filesystem where
  "fs_flat p =
     (if p = L ''C:'' @ star_pattern \<or> p = L ''C:'' @ backslash @ L ''.'' @ star_pattern
      then Some [ex_dir ''.'', ex_dir ''..'', ex_file ''file1.txt'']
      else None)"

text \<open>
  A complete run of one worker on the example tree when neither a prefix nor an extension is
  configured: it enumerates \<^verbatim>\<open>A\<close>, \<^verbatim>\<open>B\<close> and \<^verbatim>\<open>sub\<close> and fails to open
  \<^verbatim>\<open>locked\<close>.
\<close>

definition ex_sched_all :: "event list" where
  "ex_sched_all =
     [Worker 0, Worker 0, Worker 0, Worker 0, Worker 0, Worker 0, Worker 0, Worker 0, Worker 0,
      Worker 0, Worker 0, Worker 0, Worker 0, Worker 0, Worker 0,
      Worker 0, Worker 0, Worker 0, Worker 0, Worker 0, Worker 0,
      Worker 0, Worker 0,
      Coordinator, Coordinator, Worker 0, Worker 0, Coordinator]"

abbreviation ex_line_b :: string where
  "ex_line_b \<equiv> ex_utf8 (L ''C:'' @ backslash @ L ''A'' @ backslash @ L ''b.doc'') @ [newline]"

abbreviation ex_line_d :: string where
  "ex_line_d \<equiv> ex_utf8 (L ''C:'' @ backslash @ L ''B'' @ backslash @ L ''d.txt'') @ [newline]"

abbreviation ex_line_root :: string where
  "ex_line_root \<equiv> ex_utf8 (L ''C:'' @ backslash @ L ''file1.txt'') @ [newline]"

text \<open>A complete run of one worker that handles two directories, the second unlistable.\<close>

definition ex_sched_flat :: "event list" where
  "ex_sched_flat =
     [Worker 0, Worker 0, Worker 0, Worker 0, Worker 0, Worker 0,
      Worker 0, Worker 0,
      Coordinator, Coordinator, Worker 0, Worker 0, Coordinator]"

section \<open>Basic facts about the state operations\<close>

lemma busy_simps [simp]:
  "\<not> busy Waiting" "busy (Holding d)" "busy (Enumerating d es)" "\<not> busy Leaving" "\<not> busy Exited"
  by (simp_all add: busy_def)

lemma length_filter_update:
  "i < length xs \<Longrightarrow>
   length (filter P (xs[i := x])) + (if P (xs ! i) then 1 else 0) =
   length (filter P xs) + (if P x then 1 else 0)"
proof (induction xs arbitrary: i)
  case Nil
  then show ?case by simp
next
  case (Cons a xs)
  show ?case
  proof (cases i)
    case 0
    then show ?thesis by simp
  next
    case (Suc j)
    with Cons.prems have "j < length xs" by simp
    from Cons.IH [OF this] Suc show ?thesis by (simp split: if_splits)
  qed
qed

lemma busy_counted: "i < length xs \<Longrightarrow> busy (xs ! i) \<Longrightarrow> 0 < length (filter busy xs)"
  by (auto simp: filter_empty_conv)

lemma map_pc_update_buf:
  "map pc (ws[i := (ws ! i)\<lparr>local_out_buf := b\<rparr>]) = map pc ws"
  by (cases "i < length ws") (simp_all add: map_update list_update_same_conv list_update_beyond)

lemma set_pc_simps [simp]:
  "dir_queue (set_pc i p s) = dir_queue s"
  "active_dir_count (set_pc i p s) = active_dir_count s"
  "done_flag (set_pc i p s) = done_flag s"
  "out_fp (set_pc i p s) = out_fp s"
  "file_count (set_pc i p s) = file_count s"
  "coordinator (set_pc i p s) = coordinator s"
  "pcs (set_pc i p s) = (pcs s)[i := p]"
  by (simp_all add: set_pc_def pcs_def map_update)

lemma set_buf_simps [simp]:
  "dir_queue (set_buf i b s) = dir_queue s"
  "active_dir_count (set_buf i b s) = active_dir_count s"
  "done_flag (set_buf i b s) = done_flag s"
  "out_fp (set_buf i b s) = out_fp s"
  "file_count (set_buf i b s) = file_count s"
  "coordinator (set_buf i b s) = coordinator s"
  "pcs (set_buf i b s) = pcs s"
  by (simp_all add: set_buf_def pcs_def map_pc_update_buf)

lemma enqueue_simps [simp]:
  "dir_queue (enqueue d s) = dir_queue s @ [d]"
  "active_dir_count (enqueue d s) = active_dir_count s + 1"
  "done_flag (enqueue d s) = done_flag s"
  "out_fp (enqueue d s) = out_fp s"
  "file_count (enqueue d s) = file_count s"
  "coordinator (enqueue d s) = coordinator s"
  "pcs (enqueue d s) = pcs s"
  by (simp_all add: enqueue_def pcs_def)

lemma pcs_updates [simp]:
  "pcs (s\<lparr>dir_queue := q\<rparr>) = pcs s"
  "pcs (s\<lparr>active_dir_count := c\<rparr>) = pcs s"
  "pcs (s\<lparr>done_flag := b\<rparr>) = pcs s"
  "pcs (s\<lparr>out_fp := out\<rparr>) = pcs s"
  "pcs (s\<lparr>file_count := k\<rparr>) = pcs s"
  "pcs (s\<lparr>coordinator := c'\<rparr>) = pcs s"
  by (simp_all add: pcs_def)

lemma in_flight_updates [simp]:
  "in_flight (s\<lparr>dir_queue := q\<rparr>) = in_flight s"
  "in_flight (s\<lparr>active_dir_count := c\<rparr>) = in_flight s"
  "in_flight (s\<lparr>done_flag := b\<rparr>) = in_flight s"
  "in_flight (s\<lparr>coordinator := c'\<rparr>) = in_flight s"
  by (simp_all add: in_flight_def)

lemma final_flush_simps [simp]:
  "dir_queue (final_flush i s) = dir_queue s"
  "active_dir_count (final_flush i s) = active_dir_count s"
  "done_flag (final_flush i s) = done_flag s"
  "file_count (final_flush i s) = file_count s"
  "coordinator (final_flush i s) = coordinator s"
  "pcs (final_flush i s) = pcs s"
  by (simp_all add: final_flush_def Let_def)

lemma process_entry_control [simp]:
  "done_flag (process_entry prog cfg utf8 dir e i s) = done_flag s"
  "coordinator (process_entry prog cfg utf8 dir e i s) = coordinator s"
  "pcs (process_entry prog cfg utf8 dir e i s) = pcs s"
  by (simp_all add: process_entry_def Let_def)

lemma process_entry_queue:
  "(dir_queue (process_entry prog cfg utf8 dir e i s) = dir_queue s \<and>
    active_dir_count (process_entry prog cfg utf8 dir e i s) = active_dir_count s) \<or>
   (dir_queue (process_entry prog cfg utf8 dir e i s) = dir_queue s @ [dir @ backslash @ cFileName e] \<and>
    active_dir_count (process_entry prog cfg utf8 dir e i s) = active_dir_count s + 1 \<and>
    is_directory e \<and> \<not> is_dot_or_dotdot (cFileName e))"
  by (simp add: process_entry_def Let_def)

lemma pcs_length [simp]: "length (pcs s) = length (workers s)"
  by (simp add: pcs_def)

lemma pcs_nth: "i < length (workers s) \<Longrightarrow> pcs s ! i = pc (workers s ! i)"
  by (simp add: pcs_def)

lemma in_flight_set_pc:
  "i < length (workers s) \<Longrightarrow>
   in_flight (set_pc i p s) + (if busy (pc (workers s ! i)) then 1 else 0) =
   in_flight s + (if busy p then 1 else 0)"
  using length_filter_update [of i "pcs s" busy p] by (simp add: in_flight_def pcs_nth)

lemma in_flight_process_entry [simp]:
  "in_flight (process_entry prog cfg utf8 dir e i s) = in_flight s"
  by (simp add: in_flight_def)

lemma in_flight_final_flush [simp]: "in_flight (final_flush i s) = in_flight s"
  by (simp add: in_flight_def)

lemma in_flight_pos:
  "i < length (workers s) \<Longrightarrow> busy (pc (workers s ! i)) \<Longrightarrow> 0 < in_flight s"
  unfolding in_flight_def using busy_counted [of i "pcs s"] by (simp add: pcs_nth)

lemma backslash_nonempty [simp]: "backslash \<noteq> []"
  by (simp add: backslash_def)

lemma worker_step_counter_inv:
  assumes step: "worker_step prog cfg fs utf8 i s = Some s'"
    and inv: "counter_inv s"
  shows "counter_inv s'"
proof -
  from step have i: "i < length (workers s)"
    by (auto simp: worker_step_def split: if_splits)
  from i have "i < length (pcs s)" by simp
  note upd = length_filter_update [OF this, of busy, unfolded pcs_nth [OF i]]
  note [simp] = in_flight_def
  show ?thesis
  proof (cases "pc (workers s ! i)")
    case Waiting
    with step i inv upd [of Leaving] upd [of "Holding (hd (dir_queue s))"] show ?thesis
      by (cases "dir_queue s")
        (auto simp: worker_step_def counter_inv_def Let_def split: if_splits)
  next
    case (Holding d)
    with step i inv upd [of Waiting] upd [of "Enumerating d (the (fs (d @ star_pattern)))"]
    show ?thesis
      by (auto simp: worker_step_def counter_inv_def split: option.splits)
  next
    case (Enumerating d es)
    show ?thesis
    proof (cases es)
      case Nil
      with Enumerating step i inv upd [of Waiting] show ?thesis
        by (auto simp: worker_step_def counter_inv_def)
    next
      case (Cons e es')
      with Enumerating step i
      have s': "s' = process_entry prog cfg utf8 d e i (set_pc i (Enumerating d es') s)"
        by (auto simp: worker_step_def)
      from process_entry_queue [of prog cfg utf8 d e i "set_pc i (Enumerating d es') s"]
        inv i Enumerating upd [of "Enumerating d es'"]
      show ?thesis
        unfolding s' counter_inv_def
        by auto
    qed
  next
    case Leaving
    with step i inv upd [of Exited] show ?thesis
      by (auto simp: worker_step_def counter_inv_def)
  next
    case Exited
    with step i show ?thesis by (simp add: worker_step_def)
  qed
qed

section \<open>The invariants hold in every reachable state\<close>

lemma counter_zero_idle:
  assumes "counter_inv s" "active_dir_count s = 0"
  shows "dir_queue s = []" "\<forall>p \<in> set (pcs s). \<not> busy p"
proof -
  from assms have "length (dir_queue s) + length (filter busy (pcs s)) = 0"
    unfolding counter_inv_def in_flight_def by linarith
  then show "dir_queue s = []" "\<forall>p \<in> set (pcs s). \<not> busy p"
    by (simp_all add: filter_empty_conv)
qed

lemma set_update_cases: "y \<in> set (xs[i := x]) \<Longrightarrow> y = x \<or> y \<in> set xs"
  using set_update_subset_insert [of xs i x] by auto

lemma shutdown_inv_set_pc:
  assumes "shutdown_inv s"
    and "coordinator s' = coordinator s" and "done_flag s' = done_flag s"
    and "pcs s' = (pcs s)[i := p]"
    and "coordinator s \<noteq> Polling \<longrightarrow> active_dir_count s' = 0"
    and "p = Leaving \<or> p = Exited \<longrightarrow> done_flag s"
    and "coordinator s = Finished \<longrightarrow> p = Exited"
  shows "shutdown_inv s'"
  using assms unfolding shutdown_inv_def
  by (auto dest!: set_update_cases)

lemma worker_step_shutdown_inv:
  assumes step: "worker_step prog cfg fs utf8 i s = Some s'"
    and cinv: "counter_inv s" and inv: "shutdown_inv s"
  shows "shutdown_inv s'"
proof -
  from step have i: "i < length (workers s)"
    by (auto simp: worker_step_def split: if_splits)
  then have mem: "pc (workers s ! i) \<in> set (pcs s)"
    by (simp add: pcs_def)
  have fin: "coordinator s = Finished \<Longrightarrow> pc (workers s ! i) = Exited"
    using inv mem by (simp add: shutdown_inv_def)
  have zero: "coordinator s \<noteq> Polling \<Longrightarrow> active_dir_count s = 0"
    using inv by (simp add: shutdown_inv_def)
  have idle: "coordinator s \<noteq> Polling \<Longrightarrow> dir_queue s = [] \<and> \<not> busy (pc (workers s ! i))"
    using counter_zero_idle [OF cinv zero] mem by blast
  show ?thesis
  proof (cases "pc (workers s ! i)")
    case Waiting
    show ?thesis
    proof (cases "done_flag s \<and> dir_queue s = []")
      case True
      with Waiting step i have "s' = set_pc i Leaving s"
        by (simp add: worker_step_def)
      with True Waiting zero fin show ?thesis
        by (intro shutdown_inv_set_pc [OF inv, of _ i Leaving]) auto
    next
      case False
      with Waiting step i have q: "dir_queue s \<noteq> []"
        by (auto simp: worker_step_def split: if_splits)
      with idle have pol: "coordinator s = Polling" by blast
      from False Waiting step i q
      have "s' = s\<lparr>dir_queue := tl (dir_queue s)\<rparr> \<or>
            s' = set_pc i (Holding (hd (dir_queue s))) (s\<lparr>dir_queue := tl (dir_queue s)\<rparr>)"
        by (auto simp: worker_step_def Let_def split: if_splits)
      then show ?thesis
      proof
        assume "s' = s\<lparr>dir_queue := tl (dir_queue s)\<rparr>"
        with inv show ?thesis by (auto simp: shutdown_inv_def)
      next
        assume "s' = set_pc i (Holding (hd (dir_queue s))) (s\<lparr>dir_queue := tl (dir_queue s)\<rparr>)"
        with pol show ?thesis
          by (intro shutdown_inv_set_pc [OF inv, of _ i "Holding (hd (dir_queue s))"]) auto
      qed
    qed
  next
    case (Holding d)
    with idle have pol: "coordinator s = Polling" by auto
    from Holding step i
    have "s' = set_pc i Waiting (s\<lparr>active_dir_count := active_dir_count s - 1\<rparr>) \<or>
          (\<exists>es. s' = set_pc i (Enumerating d es) s)"
      by (auto simp: worker_step_def split: option.splits)
    then show ?thesis
    proof
      assume "s' = set_pc i Waiting (s\<lparr>active_dir_count := active_dir_count s - 1\<rparr>)"
      with pol show ?thesis
        by (intro shutdown_inv_set_pc [OF inv, of _ i Waiting]) auto
    next
      assume "\<exists>es. s' = set_pc i (Enumerating d es) s"
      then obtain es where "s' = set_pc i (Enumerating d es) s" ..
      with pol show ?thesis
        by (intro shutdown_inv_set_pc [OF inv, of _ i "Enumerating d es"]) auto
    qed
  next
    case (Enumerating d es)
    with idle have pol: "coordinator s = Polling" by auto
    show ?thesis
    proof (cases es)
      case Nil
      with Enumerating step i
      have "s' = set_pc i Waiting (s\<lparr>active_dir_count := active_dir_count s - 1\<rparr>)"
        by (simp add: worker_step_def)
      with pol show ?thesis
        by (intro shutdown_inv_set_pc [OF inv, of _ i Waiting]) auto
    next
      case (Cons e es')
      with Enumerating step i
      have "s' = process_entry prog cfg utf8 d e i (set_pc i (Enumerating d es') s)"
        by (simp add: worker_step_def)
      with pol show ?thesis
        by (intro shutdown_inv_set_pc [OF inv, of _ i "Enumerating d es'"]) auto
    qed
  next
    case Leaving
    with step i have s': "s' = set_pc i Exited (final_flush i s)"
      by (simp add: worker_step_def)
    from inv mem Leaving have "done_flag s"
      by (auto simp: shutdown_inv_def)
    with s' zero show ?thesis
      by (intro shutdown_inv_set_pc [OF inv, of _ i Exited]) auto
  next
    case Exited
    with step i show ?thesis by (simp add: worker_step_def)
  qed
qed

lemma coordinator_step_counter_inv:
  "coordinator_step s = Some s' \<Longrightarrow> counter_inv s \<Longrightarrow> counter_inv s'"
  by (auto simp: coordinator_step_def counter_inv_def split: coordinator_pc.splits if_splits)

lemma coordinator_step_shutdown_inv:
  "coordinator_step s = Some s' \<Longrightarrow> counter_inv s \<Longrightarrow> shutdown_inv s \<Longrightarrow> shutdown_inv s'"
  by (auto simp: coordinator_step_def shutdown_inv_def list_all_iff pcs_def
      split: coordinator_pc.splits if_splits)

lemma sys_step_inv:
  assumes "sys_step prog cfg fs utf8 ev s = Some s'" "counter_inv s \<and> shutdown_inv s"
  shows "counter_inv s' \<and> shutdown_inv s'"
  using assms
  by (cases ev)
    (auto simp: sys_step_def
      intro: worker_step_counter_inv worker_step_shutdown_inv
        coordinator_step_counter_inv coordinator_step_shutdown_inv)

lemma exec_inv:
  "exec prog cfg fs utf8 sched s = Some s' \<Longrightarrow> counter_inv s \<and> shutdown_inv s \<Longrightarrow>
   counter_inv s' \<and> shutdown_inv s'"
proof (induction sched arbitrary: s)
  case Nil
  then show ?case by simp
next
  case (Cons ev sched)
  then show ?case
    by (auto split: option.splits dest: sys_step_inv)
qed

lemma seed_loop_counter:
  "[] \<notin> set q \<Longrightarrow> seed_loop prog cfg es (q, int (length q)) = (q', c') \<Longrightarrow>
   c' = int (length q') \<and> [] \<notin> set q'"
proof (induction es arbitrary: q)
  case Nil
  then show ?case by auto
next
  case (Cons e es)
  let ?x = "ROOT_DIR cfg @ backslash @ cFileName e"
  have push: "(q @ [?x], int (length q) + 1) = (q @ [?x], int (length (q @ [?x])))"
    by simp
  have ok: "[] \<notin> set (q @ [?x])"
    using Cons.prems(1) by simp
  from Cons.prems(2) Cons.IH [OF Cons.prems(1)] Cons.IH [OF ok] show ?case
    unfolding seed_loop.simps push by (simp split: if_splits)
qed

lemma launch_inv:
  assumes "launch prog cfg fs n = Some s0"
  shows "counter_inv s0 \<and> shutdown_inv s0"
proof -
  obtain q c where qc: "initialize_directory_queue prog cfg fs = (q, c)"
    by (cases "initialize_directory_queue prog cfg fs")
  then have "c = int (length q) \<and> [] \<notin> set q"
    using seed_loop_counter [of "[]" prog cfg _ q c]
    by (auto simp: initialize_directory_queue_def split: option.splits)
  with assms qc show ?thesis
    by (auto simp: launch_def counter_inv_def shutdown_inv_def in_flight_def pcs_def
        split: if_splits)
qed

lemma reachable_inv:
  "launch prog cfg fs n = Some s0 \<Longrightarrow> exec prog cfg fs utf8 sched s0 = Some s \<Longrightarrow>
   counter_inv s \<and> shutdown_inv s"
  using exec_inv launch_inv by blast

lemma exec_append:
  "exec prog cfg fs utf8 (xs @ ys) s =
     (case exec prog cfg fs utf8 xs s of
        None \<Rightarrow> None
      | Some s' \<Rightarrow> exec prog cfg fs utf8 ys s')"
  by (induction xs arbitrary: s) (auto split: option.splits)

lemma exec_chain:
  "exec prog cfg fs utf8 xs s = Some s' \<Longrightarrow> exec prog cfg fs utf8 ys s' = Some s'' \<Longrightarrow>
   exec prog cfg fs utf8 (xs @ ys) s = Some s''"
  by (simp add: exec_append)

text \<open>Which worker steps change the counter, and how.\<close>

lemma worker_step_counter_change:
  assumes "worker_step prog cfg fs utf8 i s = Some s'"
  shows "(length (dir_queue s) < length (dir_queue s') \<longrightarrow>
            active_dir_count s' = active_dir_count s + 1) \<and>
         (active_dir_count s' < active_dir_count s \<longrightarrow>
            (\<exists>d. pc (workers s ! i) = Enumerating d [] \<or>
                 (pc (workers s ! i) = Holding d \<and> fs (d @ star_pattern) = None)))"
proof -
  from assms have i: "i < length (workers s)"
    by (auto simp: worker_step_def split: if_splits)
  show ?thesis
  proof (cases "pc (workers s ! i)")
    case Waiting
    with assms i show ?thesis
      by (cases "dir_queue s") (auto simp: worker_step_def Let_def split: if_splits)
  next
    case (Holding d)
    with assms i show ?thesis
      by (auto simp: worker_step_def split: option.splits)
  next
    case (Enumerating d es)
    show ?thesis
    proof (cases es)
      case Nil
      with Enumerating assms i show ?thesis
        by (auto simp: worker_step_def)
    next
      case (Cons e es')
      with Enumerating assms i
      have s': "s' = process_entry prog cfg utf8 d e i (set_pc i (Enumerating d es') s)"
        by (auto simp: worker_step_def)
      from process_entry_queue [of prog cfg utf8 d e i "set_pc i (Enumerating d es') s"]
      show ?thesis
        unfolding s' by auto
    qed
  next
    case Leaving
    with assms i show ?thesis
      by (auto simp: worker_step_def)
  next
    case Exited
    with assms i show ?thesis by (simp add: worker_step_def)
  qed
qed

section \<open>Lines and the matched-file counter\<close>

lemma process_entry_eq:
  "process_entry prog cfg utf8 dir e i s =
     (case entry_subdir prog cfg dir e of
        Some subdir \<Rightarrow> enqueue subdir s
      | None \<Rightarrow>
          (case entry_line prog cfg utf8 dir e of
             Some line \<Rightarrow> append_line cfg line i s
           | None \<Rightarrow> s))"
  by (simp add: process_entry_def entry_subdir_def entry_line_def append_line_def Let_def)

lemma sum_list_map_update_nat:
  fixes f :: "'a \<Rightarrow> nat"
  shows "i < length xs \<Longrightarrow>
    sum_list (map f (xs[i := x])) + f (xs ! i) = sum_list (map f xs) + f x"
proof (induction xs arbitrary: i)
  case Nil
  then show ?case by simp
next
  case (Cons a xs)
  show ?case
  proof (cases i)
    case 0
    then show ?thesis by simp
  next
    case (Suc j)
    with Cons.prems have "j < length xs" by simp
    from Cons.IH [OF this] Suc show ?thesis by simp
  qed
qed

lemma buffered_updates [simp]:
  "buffered (s\<lparr>dir_queue := q\<rparr>) = buffered s"
  "buffered (s\<lparr>active_dir_count := c\<rparr>) = buffered s"
  "buffered (s\<lparr>done_flag := b\<rparr>) = buffered s"
  "buffered (s\<lparr>out_fp := out\<rparr>) = buffered s"
  "buffered (s\<lparr>file_count := k\<rparr>) = buffered s"
  "buffered (s\<lparr>coordinator := c'\<rparr>) = buffered s"
  "buffered (enqueue d s) = buffered s"
  by (simp_all add: buffered_def enqueue_def)

lemma buffered_set_pc [simp]: "buffered (set_pc i p s) = buffered s"
proof (cases "i < length (workers s)")
  case True
  from sum_list_map_update_nat [OF True, of "\<lambda>w. length (local_out_buf w)" "(workers s ! i)\<lparr>pc := p\<rparr>"]
  show ?thesis by (simp add: buffered_def set_pc_def)
next
  case False
  then show ?thesis by (simp add: buffered_def set_pc_def list_update_beyond)
qed

lemma buffered_set_buf:
  "i < length (workers s) \<Longrightarrow>
   buffered (set_buf i b s) + length (local_out_buf (workers s ! i)) = buffered s + length b"
  using sum_list_map_update_nat [of i "workers s" "\<lambda>w. length (local_out_buf w)"
      "(workers s ! i)\<lparr>local_out_buf := b\<rparr>"]
  by (simp add: buffered_def set_buf_def)

lemma workers_set_pc: "workers (set_pc i p s) = (workers s)[i := (workers s ! i)\<lparr>pc := p\<rparr>]"
  by (simp add: set_pc_def)

lemma workers_set_buf:
  "workers (set_buf i b s) = (workers s)[i := (workers s ! i)\<lparr>local_out_buf := b\<rparr>]"
  by (simp add: set_buf_def)

lemma workers_enqueue [simp]: "workers (enqueue d s) = workers s"
  by (simp add: enqueue_def)

lemma output_inv_append_line:
  assumes inv: "output_inv prog s" and i: "i < length (workers s)"
    and pc: "pc (workers s ! i) \<noteq> Exited"
  shows "output_inv prog (append_line cfg line i s)"
proof -
  let ?buf = "local_out_buf (workers s ! i) @ [line]"
  show ?thesis
  proof (cases "OUTPUT_BUFFER_FLUSH_COUNT cfg * 256 \<le> buf_size ?buf")
    case True
    then have eq: "append_line cfg line i s =
        set_buf i [] (s\<lparr>file_count := file_count s + 1, out_fp := out_fp s @ ?buf\<rparr>)"
      by (simp add: append_line_def)
    from i have "buffered (set_buf i [] (s\<lparr>file_count := file_count s + 1, out_fp := out_fp s @ ?buf\<rparr>))
        + length (local_out_buf (workers s ! i)) = buffered s"
      using buffered_set_buf [of i "s\<lparr>file_count := file_count s + 1, out_fp := out_fp s @ ?buf\<rparr>" "[]"]
      by simp
    with inv i pc show ?thesis
      unfolding eq output_inv_def
      by (auto simp: workers_set_buf dest!: set_update_cases)
  next
    case False
    then have eq: "append_line cfg line i s = set_buf i ?buf (s\<lparr>file_count := file_count s + 1\<rparr>)"
      by (simp add: append_line_def)
    from i have "buffered (set_buf i ?buf (s\<lparr>file_count := file_count s + 1\<rparr>))
        = buffered s + 1"
      using buffered_set_buf [of i "s\<lparr>file_count := file_count s + 1\<rparr>" ?buf]
      by simp
    with inv i pc show ?thesis
      unfolding eq output_inv_def
      by (auto simp: workers_set_buf dest!: set_update_cases)
  qed
qed
lemma output_inv_updates [simp]:
  "output_inv prog (s\<lparr>dir_queue := q\<rparr>) = output_inv prog s"
  "output_inv prog (s\<lparr>active_dir_count := c\<rparr>) = output_inv prog s"
  "output_inv prog (s\<lparr>done_flag := b\<rparr>) = output_inv prog s"
  "output_inv prog (s\<lparr>coordinator := c'\<rparr>) = output_inv prog s"
  "output_inv prog (enqueue d s) = output_inv prog s"
  by (simp_all add: output_inv_def enqueue_def buffered_def)

lemma output_inv_set_pc:
  assumes "output_inv prog s"
    and "p = Exited \<longrightarrow> local_out_buf (workers s ! i) = []"
  shows "output_inv prog (set_pc i p s)"
  using assms unfolding output_inv_def
  by (auto simp: workers_set_pc set_pc_simps dest!: set_update_cases)

lemma output_inv_final_flush:
  assumes inv: "output_inv prog s" and i: "i < length (workers s)"
    and pc: "pc (workers s ! i) \<noteq> Exited"
  shows "output_inv prog (final_flush i s) \<and> local_out_buf (workers (final_flush i s) ! i) = []"
proof (cases "local_out_buf (workers s ! i) = []")
  case True
  with inv show ?thesis by (simp add: final_flush_def)
next
  case False
  let ?buf = "local_out_buf (workers s ! i)"
  from False have eq: "final_flush i s = set_buf i [] (s\<lparr>out_fp := out_fp s @ ?buf\<rparr>)"
    by (simp add: final_flush_def Let_def)
  from i have "buffered (set_buf i [] (s\<lparr>out_fp := out_fp s @ ?buf\<rparr>)) + length ?buf = buffered s"
    using buffered_set_buf [of i "s\<lparr>out_fp := out_fp s @ ?buf\<rparr>" "[]"] by simp
  with inv i pc show ?thesis
    unfolding eq output_inv_def
    by (auto simp: workers_set_buf dest!: set_update_cases)
qed

lemma worker_step_output_inv:
  assumes step: "worker_step prog cfg fs utf8 i s = Some s'"
    and inv: "output_inv prog s"
  shows "output_inv prog s'"
proof -
  from step have i: "i < length (workers s)"
    by (auto simp: worker_step_def split: if_splits)
  show ?thesis
  proof (cases "pc (workers s ! i)")
    case Waiting
    with step i inv show ?thesis
      by (auto simp: worker_step_def Let_def split: if_splits intro!: output_inv_set_pc)
  next
    case (Holding d)
    with step i inv show ?thesis
      by (auto simp: worker_step_def split: option.splits intro!: output_inv_set_pc)
  next
    case (Enumerating d es)
    show ?thesis
    proof (cases es)
      case Nil
      with Enumerating step i inv show ?thesis
        by (auto simp: worker_step_def intro!: output_inv_set_pc)
    next
      case (Cons e es')
      let ?t = "set_pc i (Enumerating d es') s"
      from Cons Enumerating step i
      have s': "s' = process_entry prog cfg utf8 d e i ?t"
        by (auto simp: worker_step_def)
      have t: "output_inv prog ?t"
        using inv by (intro output_inv_set_pc) auto
      have it: "i < length (workers ?t)" "pc (workers ?t ! i) \<noteq> Exited"
        using i by (simp_all add: workers_set_pc)
      from t output_inv_append_line [OF t it] show ?thesis
        unfolding s' process_entry_eq
        by (auto split: option.splits)
    qed
  next
    case Leaving
    with step i have s': "s' = set_pc i Exited (final_flush i s)"
      by (simp add: worker_step_def)
    from Leaving have "pc (workers s ! i) \<noteq> Exited" by simp
    from output_inv_final_flush [OF inv i this] show ?thesis
      unfolding s' by (intro output_inv_set_pc) auto
  next
    case Exited
    with step i show ?thesis by (simp add: worker_step_def)
  qed
qed

lemma coordinator_step_output_inv:
  "coordinator_step s = Some s' \<Longrightarrow> output_inv prog s \<Longrightarrow> output_inv prog s'"
  by (auto simp: coordinator_step_def split: coordinator_pc.splits if_splits)

lemma exec_output_inv:
  "exec prog cfg fs utf8 sched s = Some s' \<Longrightarrow> output_inv prog s \<Longrightarrow> output_inv prog s'"
proof (induction sched arbitrary: s)
  case Nil
  then show ?case by simp
next
  case (Cons ev sched)
  then show ?case
    by (cases ev)
      (auto simp: sys_step_def split: option.splits
        dest: worker_step_output_inv coordinator_step_output_inv)
qed

lemma launch_output_inv: "launch prog cfg fs n = Some s0 \<Longrightarrow> output_inv prog s0"
  by (auto simp: launch_def output_inv_def buffered_def split: prod.splits if_splits)

lemma finished_all_exited:
  "shutdown_inv s \<Longrightarrow> coordinator s = Finished \<Longrightarrow> \<forall>w \<in> set (workers s). pc w = Exited"
  by (auto simp: shutdown_inv_def pcs_def)

lemma buffered_zero:
  "\<forall>w \<in> set (workers s). local_out_buf w = [] \<Longrightarrow> buffered s = 0"
  by (simp add: buffered_def)

section \<open>The lines owed and the lines written\<close>

inductive_cases yields_entries_NilE: "yields_entries prog cfg fs utf8 d [] N"
inductive_cases yields_entries_ConsE: "yields_entries prog cfg fs utf8 d (e # es) N"
inductive_cases sums_to_NilE: "sums_to P [] M"
inductive_cases sums_to_ConsE: "sums_to P (x # xs) M"

lemma yields_unreadable: "yields prog cfg fs utf8 d N \<Longrightarrow> fs (d @ star_pattern) = None \<Longrightarrow> N = {#}"
  by (auto elim: yields.cases)

lemma yields_listed:
  "yields prog cfg fs utf8 d N \<Longrightarrow> fs (d @ star_pattern) = Some es \<Longrightarrow>
   yields_entries prog cfg fs utf8 d es N"
  by (auto elim: yields.cases)

lemma sums_to_snoc: "sums_to P xs A \<Longrightarrow> P x B \<Longrightarrow> sums_to P (xs @ [x]) (A + B)"
proof (induction rule: sums_to.induct)
  case sums_Nil
  from sums_to.sums_Cons [of P x B "[]" "{#}"] sums_Nil sums_to.sums_Nil [of P]
  show ?case by simp
next
  case (sums_Cons y M ys N)
  from sums_to.sums_Cons [of P y M "ys @ [x]" "N + B"] sums_Cons.hyps(1)
    sums_Cons.IH [OF sums_Cons.prems]
  show ?case by (simp add: ac_simps)
qed

lemma sums_to_nth:
  "sums_to P xs M \<Longrightarrow> i < length xs \<Longrightarrow>
   \<exists>A R. P (xs ! i) A \<and> M = A + R \<and> (\<forall>x' A'. P x' A' \<longrightarrow> sums_to P (xs[i := x']) (A' + R))"
proof (induction arbitrary: i rule: sums_to.induct)
  case sums_Nil
  then show ?case by simp
next
  case (sums_Cons x M xs N)
  show ?case
  proof (cases i)
    case 0
    have "\<forall>x' A'. P x' A' \<longrightarrow> sums_to P ((x # xs)[0 := x']) (A' + N)"
      using sums_Cons.hyps(2) by (auto intro: sums_to.sums_Cons)
    with sums_Cons.hyps(1) 0 show ?thesis by auto
  next
    case (Suc j)
    with sums_Cons.prems have "j < length xs" by simp
    from sums_Cons.IH [OF this] obtain A R where A: "P (xs ! j) A" "N = A + R"
      and upd: "\<forall>x' A'. P x' A' \<longrightarrow> sums_to P (xs[j := x']) (A' + R)"
      by blast
    have "sums_to P ((x # xs)[i := x']) (A' + (M + R))" if "P x' A'" for x' A'
    proof -
      from upd that have "sums_to P (xs[j := x']) (A' + R)" by blast
      from sums_to.sums_Cons [of P x M "xs[j := x']" "A' + R"] sums_Cons.hyps(1) this Suc
      show ?thesis
        by (simp add: ac_simps)
    qed
    with A Suc show ?thesis
      by (intro exI [of _ A] exI [of _ "M + R"]) (auto simp: ac_simps)
  qed
qed

lemma sums_to_all_empty:
  "sums_to P xs M \<Longrightarrow> (\<And>x A. x \<in> set xs \<Longrightarrow> P x A \<Longrightarrow> A = {#}) \<Longrightarrow> M = {#}"
  by (induction rule: sums_to.induct) auto

lemma sums_to_replicate: "P x {#} \<Longrightarrow> sums_to P (replicate n x) {#}"
proof (induction n)
  case 0
  show ?case by (simp add: sums_to.sums_Nil)
next
  case (Suc n)
  from sums_to.sums_Cons [of P x "{#}" "replicate n x" "{#}"] Suc.prems Suc.IH [OF Suc.prems]
  show ?case by simp
qed

lemma yields_entries_subdir:
  assumes "yields_entries prog cfg fs utf8 d (e # es) N"
    and "entry_subdir prog cfg d e = Some subdir"
  shows "\<exists>M1 N'. yields prog cfg fs utf8 subdir M1 \<and>
           yields_entries prog cfg fs utf8 d es N' \<and> N = M1 + N'"
  using assms by (cases rule: yields_entries.cases) auto

lemma yields_entries_line:
  assumes "yields_entries prog cfg fs utf8 d (e # es) N"
    and "entry_subdir prog cfg d e = None" and "entry_line prog cfg utf8 d e = Some line"
  shows "\<exists>N'. yields_entries prog cfg fs utf8 d es N' \<and> N = add_mset line N'"
  using assms by (cases rule: yields_entries.cases) auto

lemma yields_entries_skip:
  assumes "yields_entries prog cfg fs utf8 d (e # es) N"
    and "entry_subdir prog cfg d e = None" and "entry_line prog cfg utf8 d e = None"
  shows "yields_entries prog cfg fs utf8 d es N"
  using assms by (cases rule: yields_entries.cases) auto

lemma lines_invI:
  assumes "worker_yields prog cfg fs utf8 w' A'"
    and "\<forall>x' A'. worker_yields prog cfg fs utf8 x' A' \<longrightarrow>
           sums_to (worker_yields prog cfg fs utf8) ((workers s)[i := x']) (A' + R)"
    and "sums_to (yields prog cfg fs utf8) (dir_queue s') Q'"
    and "workers s' = (workers s)[i := w']"
    and "mset (tl (out_fp s')) + Q' + (A' + R) = M"
  shows "lines_inv prog cfg fs utf8 M s'"
  using assms unfolding lines_inv_def by metis

lemma worker_yields_idle:
  "pc w = Waiting \<or> pc w = Leaving \<or> pc w = Exited \<Longrightarrow>
   worker_yields prog cfg fs utf8 w A \<longleftrightarrow> A = mset (local_out_buf w)"
  by (auto simp: worker_yields_def)

lemma worker_yields_Holding:
  "pc w = Holding d \<Longrightarrow>
   worker_yields prog cfg fs utf8 w A \<longleftrightarrow>
     (\<exists>N. A = mset (local_out_buf w) + N \<and> yields prog cfg fs utf8 d N)"
  by (auto simp: worker_yields_def)

lemma worker_yields_Enumerating:
  "pc w = Enumerating d es \<Longrightarrow>
   worker_yields prog cfg fs utf8 w A \<longleftrightarrow>
     (\<exists>N. A = mset (local_out_buf w) + N \<and> yields_entries prog cfg fs utf8 d es N)"
  by (auto simp: worker_yields_def)

lemma append_line_lines:
  assumes "i < length (workers t)" and "out_fp t \<noteq> []"
  shows "\<exists>b. workers (append_line cfg line i t) =
               (workers t)[i := (workers t ! i)\<lparr>local_out_buf := b\<rparr>] \<and>
             dir_queue (append_line cfg line i t) = dir_queue t \<and>
             mset (tl (out_fp (append_line cfg line i t))) + mset b =
               add_mset line (mset (tl (out_fp t)) + mset (local_out_buf (workers t ! i)))"
  using assms by (auto simp: append_line_def Let_def workers_set_buf)

lemma final_flush_lines:
  assumes "i < length (workers s)" and "out_fp s \<noteq> []"
  shows "workers (final_flush i s) = (workers s)[i := (workers s ! i)\<lparr>local_out_buf := []\<rparr>] \<and>
         dir_queue (final_flush i s) = dir_queue s \<and>
         mset (tl (out_fp (final_flush i s))) =
           mset (tl (out_fp s)) + mset (local_out_buf (workers s ! i))"
proof (cases "local_out_buf (workers s ! i) = []")
  case True
  then have "(workers s ! i)\<lparr>local_out_buf := []\<rparr> = workers s ! i"
    by (cases "workers s ! i") simp
  then have "(workers s)[i := (workers s ! i)\<lparr>local_out_buf := []\<rparr>] = workers s"
    by (simp only: list_update_id)
  with True show ?thesis
    by (simp add: final_flush_def)
next
  case False
  with assms show ?thesis
    by (simp add: final_flush_def Let_def workers_set_buf)
qed

lemma worker_step_lines_inv:
  assumes step: "worker_step prog cfg fs utf8 i s = Some s'"
    and inv: "lines_inv prog cfg fs utf8 M s"
    and cinv: "counter_inv s" and oinv: "output_inv prog s"
  shows "lines_inv prog cfg fs utf8 M s'"
proof -
  let ?Y = "yields prog cfg fs utf8" and ?WY = "worker_yields prog cfg fs utf8"
  let ?w = "workers s ! i" and ?buf = "local_out_buf (workers s ! i)"
  from step have i: "i < length (workers s)"
    by (auto simp: worker_step_def split: if_splits)
  from oinv have out: "out_fp s \<noteq> []"
    by (simp add: output_inv_def)
  from inv obtain Q W where Q: "sums_to ?Y (dir_queue s) Q"
    and W: "sums_to ?WY (workers s) W" and total: "mset (tl (out_fp s)) + Q + W = M"
    unfolding lines_inv_def by blast
  from sums_to_nth [OF W i] obtain A R where A: "?WY ?w A" and WA: "W = A + R"
    and upd: "\<forall>x' A'. ?WY x' A' \<longrightarrow> sums_to ?WY ((workers s)[i := x']) (A' + R)"
    by blast
  show ?thesis
  proof (cases "pc ?w")
    case Waiting
    with A have A': "A = mset ?buf"
      by (simp add: worker_yields_idle)
    show ?thesis
    proof (cases "done_flag s \<and> dir_queue s = []")
      case True
      with Waiting step i have s': "s' = set_pc i Leaving s"
        by (simp add: worker_step_def)
      have "?WY (?w\<lparr>pc := Leaving\<rparr>) A"
        using A' by (simp add: worker_yields_idle)
      then show ?thesis
        by (rule lines_invI [OF _ upd, of _ _ s' Q])
          (use Q total WA in \<open>simp_all add: s' workers_set_pc\<close>)
    next
      case False
      with Waiting step i obtain d q where q: "dir_queue s = d # q"
        by (cases "dir_queue s") (auto simp: worker_step_def split: if_splits)
      with cinv have d: "d \<noteq> []"
        by (auto simp: counter_inv_def)
      from False Waiting step i q d
      have s': "s' = set_pc i (Holding d) (s\<lparr>dir_queue := q\<rparr>)"
        by (auto simp: worker_step_def Let_def split: if_splits)
      from Q q obtain Md Q' where Md: "?Y d Md" and Q': "sums_to ?Y q Q'" and QQ: "Q = Md + Q'"
        by (auto elim: sums_to_ConsE)
      have "?WY (?w\<lparr>pc := Holding d\<rparr>) (mset ?buf + Md)"
        using Md by (auto simp: worker_yields_Holding)
      then show ?thesis
        by (rule lines_invI [OF _ upd, of _ _ s' Q'])
          (use Q' A' total WA QQ in \<open>simp_all add: s' workers_set_pc ac_simps\<close>)
    qed
  next
    case (Holding d)
    with A obtain N where N: "A = mset ?buf + N" "?Y d N"
      by (auto simp: worker_yields_Holding)
    show ?thesis
    proof (cases "fs (d @ star_pattern)")
      case None
      with Holding step i
      have s': "s' = set_pc i Waiting (s\<lparr>active_dir_count := active_dir_count s - 1\<rparr>)"
        by (simp add: worker_step_def)
      from yields_unreadable [OF N(2) None] have "N = {#}" .
      with N have A': "A = mset ?buf" by simp
      have "?WY (?w\<lparr>pc := Waiting\<rparr>) A"
        using A' by (simp add: worker_yields_idle)
      then show ?thesis
        by (rule lines_invI [OF _ upd, of _ _ s' Q])
          (use Q total WA in \<open>simp_all add: s' workers_set_pc\<close>)
    next
      case (Some es)
      with Holding step i have s': "s' = set_pc i (Enumerating d es) s"
        by (simp add: worker_step_def)
      from yields_listed [OF N(2) Some] have "yields_entries prog cfg fs utf8 d es N" .
      with N have "?WY (?w\<lparr>pc := Enumerating d es\<rparr>) A"
        by (auto simp: worker_yields_Enumerating)
      then show ?thesis
        by (rule lines_invI [OF _ upd, of _ _ s' Q])
          (use Q total WA in \<open>simp_all add: s' workers_set_pc\<close>)
    qed
  next
    case (Enumerating d es)
    with A obtain N where N: "A = mset ?buf + N" "yields_entries prog cfg fs utf8 d es N"
      by (auto simp: worker_yields_Enumerating)
    show ?thesis
    proof (cases es)
      case Nil
      with Enumerating step i
      have s': "s' = set_pc i Waiting (s\<lparr>active_dir_count := active_dir_count s - 1\<rparr>)"
        by (simp add: worker_step_def)
      from N(2) Nil have "N = {#}"
        by (auto elim: yields_entries_NilE)
      with N have A': "A = mset ?buf" by simp
      have "?WY (?w\<lparr>pc := Waiting\<rparr>) A"
        using A' by (simp add: worker_yields_idle)
      then show ?thesis
        by (rule lines_invI [OF _ upd, of _ _ s' Q])
          (use Q total WA in \<open>simp_all add: s' workers_set_pc\<close>)
    next
      case (Cons e es')
      let ?t = "set_pc i (Enumerating d es') s"
      let ?wt = "?w\<lparr>pc := Enumerating d es'\<rparr>"
      from Cons Enumerating step i
      have s': "s' = process_entry prog cfg utf8 d e i ?t"
        by (auto simp: worker_step_def)
      have wt: "workers ?t = (workers s)[i := ?wt]" "workers ?t ! i = ?wt"
        "i < length (workers ?t)" "out_fp ?t = out_fp s" "dir_queue ?t = dir_queue s"
        using i by (simp_all add: workers_set_pc)
      from N(2) Cons have "yields_entries prog cfg fs utf8 d (e # es') N" by simp
      then have ye: "yields_entries prog cfg fs utf8 d (e # es') N" .
      consider (1) subdir where "entry_subdir prog cfg d e = Some subdir"
        | (2) line where "entry_subdir prog cfg d e = None"
            "entry_line prog cfg utf8 d e = Some line"
        | (3) "entry_subdir prog cfg d e = None" "entry_line prog cfg utf8 d e = None"
        by (cases "entry_subdir prog cfg d e"; cases "entry_line prog cfg utf8 d e") auto
      then show ?thesis
      proof cases
        case 1
        from yields_entries_subdir [OF ye 1] obtain M1 N'
          where sub: "?Y subdir M1" "yields_entries prog cfg fs utf8 d es' N'" "N = M1 + N'"
          by blast
        from 1 have s'': "s' = enqueue subdir ?t"
          by (simp add: s' process_entry_eq)
        from sums_to_snoc [OF Q sub(1)] have Q': "sums_to ?Y (dir_queue s @ [subdir]) (Q + M1)" .
        from sub have "?WY ?wt (mset ?buf + N')"
          by (auto simp: worker_yields_Enumerating)
        then show ?thesis
          by (rule lines_invI [OF _ upd, of _ _ s' "Q + M1"])
            (use Q' total WA N sub in \<open>auto simp: s'' wt ac_simps\<close>)
      next
        case 2
        from yields_entries_line [OF ye 2] obtain N'
          where ln: "yields_entries prog cfg fs utf8 d es' N'" "N = add_mset line N'"
          by blast
        from 2 have s'': "s' = append_line cfg line i ?t"
          by (simp add: s' process_entry_eq)
        from append_line_lines [of i ?t cfg line] wt out obtain b
          where b: "workers s' = (workers s)[i := ?wt\<lparr>local_out_buf := b\<rparr>]"
            "dir_queue s' = dir_queue s"
            "mset (tl (out_fp s')) + mset b = add_mset line (mset (tl (out_fp s)) + mset ?buf)"
          unfolding s'' by auto
        from ln have "?WY (?wt\<lparr>local_out_buf := b\<rparr>) (mset b + N')"
          by (auto simp: worker_yields_Enumerating)
        then show ?thesis
        proof (rule lines_invI [OF _ upd, of _ _ s' Q])
          show "sums_to ?Y (dir_queue s') Q" using Q b by simp
          show "workers s' = (workers s)[i := ?wt\<lparr>local_out_buf := b\<rparr>]" by (rule b)
          have "mset (tl (out_fp s')) + Q + (mset b + N' + R) =
                (mset (tl (out_fp s')) + mset b) + Q + N' + R"
            by (simp add: ac_simps)
          also have "\<dots> = mset (tl (out_fp s)) + Q + (mset ?buf + add_mset line N' + R)"
            unfolding b(3) by (simp add: ac_simps)
          also have "\<dots> = M"
            using total WA N ln by (simp add: ac_simps)
          finally show "mset (tl (out_fp s')) + Q + (mset b + N' + R) = M" .
        qed
      next
        case 3
        then have s'': "s' = ?t"
          by (simp add: s' process_entry_eq)
        from yields_entries_skip [OF ye 3] have "?WY ?wt A"
          using N by (auto simp: worker_yields_Enumerating)
        then show ?thesis
          by (rule lines_invI [OF _ upd, of _ _ s' Q])
            (use Q total WA in \<open>simp_all add: s'' wt\<close>)
      qed
    qed
  next
    case Leaving
    with A have A': "A = mset ?buf"
      by (simp add: worker_yields_idle)
    from Leaving step i have s': "s' = set_pc i Exited (final_flush i s)"
      by (simp add: worker_step_def)
    from final_flush_lines [OF i out]
    have ff: "workers (final_flush i s) = (workers s)[i := ?w\<lparr>local_out_buf := []\<rparr>]"
      "dir_queue (final_flush i s) = dir_queue s"
      "mset (tl (out_fp (final_flush i s))) = mset (tl (out_fp s)) + mset ?buf"
      by simp_all
    have "?WY (?w\<lparr>local_out_buf := [], pc := Exited\<rparr>) {#}"
      by (simp add: worker_yields_idle)
    then show ?thesis
      by (rule lines_invI [OF _ upd, of _ _ s' Q])
        (use Q total WA A' i in \<open>simp_all add: s' workers_set_pc ff ac_simps\<close>)
  next
    case Exited
    with step i show ?thesis by (simp add: worker_step_def)
  qed
qed

lemma coordinator_step_lines_inv:
  "coordinator_step s = Some s' \<Longrightarrow> lines_inv prog cfg fs utf8 M s \<Longrightarrow>
   lines_inv prog cfg fs utf8 M s'"
  by (auto simp: coordinator_step_def lines_inv_def split: coordinator_pc.splits if_splits)

lemma sys_step_scan_inv:
  assumes "sys_step prog cfg fs utf8 ev s = Some s'" and "scan_inv prog cfg fs utf8 M s"
  shows "scan_inv prog cfg fs utf8 M s'"
proof (cases ev)
  case (Worker i)
  with assms(1) have step: "worker_step prog cfg fs utf8 i s = Some s'"
    by (simp add: sys_step_def)
  from assms(2) worker_step_counter_inv [OF step] worker_step_shutdown_inv [OF step]
    worker_step_output_inv [OF step] worker_step_lines_inv [OF step]
  show ?thesis
    by (simp add: scan_inv_def)
next
  case Coordinator
  with assms(1) have step: "coordinator_step s = Some s'"
    by (simp add: sys_step_def)
  from assms(2) coordinator_step_counter_inv [OF step] coordinator_step_shutdown_inv [OF step]
    coordinator_step_output_inv [OF step] coordinator_step_lines_inv [OF step]
  show ?thesis
    by (simp add: scan_inv_def)
qed

lemma exec_scan_inv:
  "exec prog cfg fs utf8 sched s = Some s' \<Longrightarrow> scan_inv prog cfg fs utf8 M s \<Longrightarrow>
   scan_inv prog cfg fs utf8 M s'"
proof (induction sched arbitrary: s)
  case Nil
  then show ?case by simp
next
  case (Cons ev sched)
  then show ?case
    by (auto split: option.splits dest: sys_step_scan_inv)
qed

lemma launch_queue:
  "launch prog cfg fs n = Some s0 \<Longrightarrow>
   dir_queue s0 = fst (initialize_directory_queue prog cfg fs) \<and> out_fp s0 = [header prog] \<and>
   workers s0 = replicate n \<lparr>pc = Waiting, local_out_buf = []\<rparr>"
  by (auto simp: launch_def split: prod.splits if_splits)

lemma launch_scan_inv:
  assumes "launch prog cfg fs n = Some s0" and "scan_yields prog cfg fs utf8 M"
  shows "scan_inv prog cfg fs utf8 M s0"
proof -
  from launch_queue [OF assms(1)]
  have q: "dir_queue s0 = fst (initialize_directory_queue prog cfg fs)"
    and o: "out_fp s0 = [header prog]"
    and w: "workers s0 = replicate n \<lparr>pc = Waiting, local_out_buf = []\<rparr>"
    by simp_all
  have "worker_yields prog cfg fs utf8 \<lparr>pc = Waiting, local_out_buf = []\<rparr> {#}"
    by (simp add: worker_yields_def)
  from sums_to_replicate [of "worker_yields prog cfg fs utf8", OF this, of n]
  have "sums_to (worker_yields prog cfg fs utf8) (workers s0) {#}"
    by (simp add: w)
  with assms(2) q o have "lines_inv prog cfg fs utf8 M s0"
    unfolding lines_inv_def scan_yields_def
    by (intro exI [of _ M] exI [of _ "{#}"]) simp
  with launch_inv [OF assms(1)] launch_output_inv [OF assms(1)] show ?thesis
    by (simp add: scan_inv_def)
qed

lemma finished_lines:
  assumes inv: "scan_inv prog cfg fs utf8 M s" and fin: "coordinator s = Finished"
  shows "out_fp s \<noteq> [] \<and> hd (out_fp s) = header prog \<and> mset (tl (out_fp s)) = M"
proof -
  from inv have cinv: "counter_inv s" and sinv: "shutdown_inv s" and oinv: "output_inv prog s"
    and linv: "lines_inv prog cfg fs utf8 M s"
    by (simp_all add: scan_inv_def)
  from linv obtain Q W where Q: "sums_to (yields prog cfg fs utf8) (dir_queue s) Q"
    and W: "sums_to (worker_yields prog cfg fs utf8) (workers s) W"
    and total: "mset (tl (out_fp s)) + Q + W = M"
    unfolding lines_inv_def by blast
  from sinv fin have "active_dir_count s = 0"
    by (simp add: shutdown_inv_def)
  from counter_zero_idle(1) [OF cinv this] Q have "Q = {#}"
    by (auto elim: sums_to_NilE)
  moreover
  have "A = {#}" if "w \<in> set (workers s)" "worker_yields prog cfg fs utf8 w A" for w A
  proof -
    from finished_all_exited [OF sinv fin] that(1) have "pc w = Exited" by blast
    moreover from this oinv that(1) have "local_out_buf w = []"
      by (auto simp: output_inv_def)
    ultimately show ?thesis
      using that(2) by (simp add: worker_yields_idle)
  qed
  from sums_to_all_empty [OF W this] have "W = {#}" .
  ultimately show ?thesis
    using total oinv by (simp add: output_inv_def)
qed

lemma launch_None_no_seed:
  assumes "launch prog cfg fs n = None"
  shows "fst (initialize_directory_queue prog cfg fs) = []"
proof -
  obtain q c where qc: "initialize_directory_queue prog cfg fs = (q, c)"
    by (cases "initialize_directory_queue prog cfg fs")
  then have "c = int (length q)"
    using seed_loop_counter [of "[]" prog cfg _ q c]
    by (auto simp: initialize_directory_queue_def split: option.splits)
  with assms qc show ?thesis
    by (auto simp: launch_def split: if_splits)
qed

text \<open>The output of every complete run is the header followed by the lines of the scan.\<close>

lemma scan_output_lines:
  assumes "scan_yields prog cfg fs utf8 M"
    and "scan_output prog cfg fs utf8 n sched = Some out"
  shows "out \<noteq> [] \<and> hd out = header prog \<and> mset (tl out) = M"
proof (cases "launch prog cfg fs n")
  case None
  from launch_None_no_seed [OF None] assms(1) have "M = {#}"
    by (auto simp: scan_yields_def elim: sums_to_NilE)
  with None assms(2) show ?thesis
    by (auto simp: scan_output_def)
next
  case (Some s0)
  with assms(2) obtain s where run: "exec prog cfg fs utf8 sched s0 = Some s"
    and fin: "coordinator s = Finished" and out: "out = out_fp s"
    by (auto simp: scan_output_def split: option.splits if_splits)
  from exec_scan_inv [OF run launch_scan_inv [OF Some assms(1)]]
  have "scan_inv prog cfg fs utf8 M s" .
  from finished_lines [OF this fin] out show ?thesis by simp
qed

lemma mset_hd_tl: "xs \<noteq> [] \<Longrightarrow> mset xs = add_mset (hd xs) (mset (tl xs))"
  by (cases xs) simp_all

section \<open>Every finite tree has a sequential reading\<close>

text \<open>On a finite tree every directory has a sequential reading.\<close>

lemma yields_entries_total:
  assumes "\<And>e. e \<in> set es \<Longrightarrow> is_directory e \<Longrightarrow> \<not> is_dot_or_dotdot (cFileName e) \<Longrightarrow>
             \<exists>M. yields prog cfg fs utf8 (dir @ backslash @ cFileName e) M"
  shows "\<exists>N. yields_entries prog cfg fs utf8 dir es N"
  using assms
proof (induction es)
  case Nil
  show ?case by (blast intro: yields_yields_entries.no_more)
next
  case (Cons e es)
  from Cons.IH Cons.prems obtain N where N: "yields_entries prog cfg fs utf8 dir es N"
    by auto
  show ?case
  proof (cases "entry_subdir prog cfg dir e")
    case (Some subdir)
    then have "is_directory e" "\<not> is_dot_or_dotdot (cFileName e)"
      "subdir = dir @ backslash @ cFileName e"
      by (auto simp: entry_subdir_def split: if_splits)
    with Cons.prems [of e] obtain M where "yields prog cfg fs utf8 subdir M"
      by auto
    from yields_yields_entries.subdirectory [OF Some this N] show ?thesis by blast
  next
    case None
    show ?thesis
    proof (cases "entry_line prog cfg utf8 dir e")
      case (Some line)
      from yields_yields_entries.matched_file [OF None Some N] show ?thesis by blast
    next
      case None': None
      from yields_yields_entries.skipped [OF None None' N] show ?thesis by blast
    qed
  qed
qed

lemma yields_total:
  assumes "wf (subdir_rel fs)"
  shows "\<exists>M. yields prog cfg fs utf8 d M"
  using assms
proof (induction d rule: wf_induct_rule)
  case (less d)
  show ?case
  proof (cases "fs (d @ star_pattern)")
    case None
    then show ?thesis by (blast intro: yields_yields_entries.unreadable)
  next
    case (Some es)
    have "\<exists>M. yields prog cfg fs utf8 (d @ backslash @ cFileName e) M"
      if "e \<in> set es" "is_directory e" "\<not> is_dot_or_dotdot (cFileName e)" for e
    proof -
      from Some that have "(d @ backslash @ cFileName e, d) \<in> subdir_rel fs"
        by (auto simp: subdir_rel_def)
      from less [OF this] show ?thesis .
    qed
    from yields_entries_total [of es prog cfg fs utf8 d, OF this]
    obtain N where "yields_entries prog cfg fs utf8 d es N"
      by blast
    from yields_yields_entries.listed [OF Some this] show ?thesis by blast
  qed
qed

lemma sums_to_total:
  assumes "\<And>x. \<exists>M. P x M"
  shows "\<exists>N. sums_to P xs N"
proof (induction xs)
  case Nil
  show ?case by (blast intro: sums_to.sums_Nil)
next
  case (Cons x xs)
  then obtain N where N: "sums_to P xs N" by blast
  from assms obtain M where "P x M" by blast
  from sums_to.sums_Cons [of P x M xs N, OF this N] show ?case by blast
qed

lemma scan_yields_total:
  assumes "wf (subdir_rel fs)"
  shows "\<exists>M. scan_yields prog cfg fs utf8 M"
  unfolding scan_yields_def
  by (rule sums_to_total) (rule yields_total [OF assms])

section \<open>Every step makes progress\<close>

lemma wf_progress_order: "wf (subdir_rel fs) \<Longrightarrow> wf (progress_order fs)"
  unfolding progress_order_def item_order_def
  by (intro wf_inv_image wf_lex_prod wf_mult wf_less_than)

lemma sum_list_map_split:
  fixes f :: "'a \<Rightarrow> 'b::comm_monoid_add"
  shows "i < length xs \<Longrightarrow>
    \<exists>R. sum_list (map f xs) = f (xs ! i) + R \<and> (\<forall>x. sum_list (map f (xs[i := x])) = f x + R)"
proof (induction xs arbitrary: i)
  case Nil
  then show ?case by simp
next
  case (Cons a xs)
  show ?case
  proof (cases i)
    case 0
    then show ?thesis by (intro exI [of _ "sum_list (map f xs)"]) simp
  next
    case (Suc j)
    with Cons.prems have "j < length xs" by simp
    from Cons.IH [OF this] obtain R where R: "sum_list (map f xs) = f (xs ! j) + R"
      "\<forall>x. sum_list (map f (xs[j := x])) = f x + R"
      by blast
    with Suc show ?thesis
      by (intro exI [of _ "f a + R"]) (simp add: ac_simps)
  qed
qed

lemma progress_by_items:
  assumes "work_items s = I + J" and "work_items s' = I + K" and "J \<noteq> {#}"
    and "\<forall>k \<in># K. \<exists>j \<in># J. (k, j) \<in> item_order fs"
  shows "(s', s) \<in> progress_order fs"
  using one_step_implies_mult [OF assms(3,4), of I] assms(1,2)
  by (simp add: progress_order_def)

lemma progress_by_rank:
  assumes "work_items s' = work_items s" and "control_rank s' < control_rank s"
  shows "(s', s) \<in> progress_order fs"
  using assms by (simp add: progress_order_def)

lemma item_order_simps [simp]:
  "((d, a, b), (d, a', b')) \<in> item_order fs \<longleftrightarrow>
     (d, d) \<in> subdir_rel fs \<or> a < a' \<or> (a = a' \<and> b < b')"
  "(c, d) \<in> subdir_rel fs \<Longrightarrow> ((c, a, b), (d, a', b')) \<in> item_order fs"
  by (auto simp: item_order_def)

lemma pc_items_simps [simp]:
  "pc_items Waiting = {#}" "pc_items Leaving = {#}" "pc_items Exited = {#}"
  "pc_items (Holding d) = {#(d, 1, 0)#}"
  "pc_items (Enumerating d es) = {#(d, 0, length es)#}"
  by (simp_all add: pc_items_def)

lemma pc_rank_simps [simp]:
  "pc_rank Waiting = 2" "pc_rank Leaving = 1" "pc_rank Exited = 0"
  "pc_rank (Holding d) = 2" "pc_rank (Enumerating d es) = 2"
  by (simp_all add: pc_rank_def)

lemma worker_step_progress:
  assumes step: "worker_step prog cfg fs utf8 i s = Some s'"
    and linv: "listing_inv fs s"
  shows "(s', s) \<in> progress_order fs"
proof -
  from step have i: "i < length (workers s)"
    by (auto simp: worker_step_def split: if_splits)
  then have ip: "i < length (pcs s)" and nth: "pcs s ! i = pc (workers s ! i)"
    by (simp_all add: pcs_nth)
  from sum_list_map_split [OF ip, of pc_items] obtain R where
    R: "sum_list (map pc_items (pcs s)) = pc_items (pc (workers s ! i)) + R"
      "\<And>p. sum_list (map pc_items ((pcs s)[i := p])) = pc_items p + R"
    unfolding nth by blast
  from sum_list_map_split [OF ip, of pc_rank] obtain r where
    r: "sum_list (map pc_rank (pcs s)) = pc_rank (pc (workers s ! i)) + r"
      "\<And>p. sum_list (map pc_rank ((pcs s)[i := p])) = pc_rank p + r"
    unfolding nth by blast
  let ?Q = "image_mset (\<lambda>d. (d, 2::nat, 0::nat)) (mset (dir_queue s))"
  show ?thesis
  proof (cases "pc (workers s ! i)")
    case Waiting
    show ?thesis
    proof (cases "done_flag s \<and> dir_queue s = []")
      case True
      with Waiting step i have s': "s' = set_pc i Leaving s"
        by (simp add: worker_step_def)
      show ?thesis
        by (rule progress_by_rank)
          (simp_all add: s' work_items_def control_rank_def R r Waiting)
    next
      case False
      with Waiting step i obtain d q where q: "dir_queue s = d # q"
        by (cases "dir_queue s") (auto simp: worker_step_def split: if_splits)
      from False Waiting step i q
      have "s' = s\<lparr>dir_queue := q\<rparr> \<or> s' = set_pc i (Holding d) (s\<lparr>dir_queue := q\<rparr>)"
        by (auto simp: worker_step_def Let_def split: if_splits)
      then show ?thesis
      proof
        assume s': "s' = s\<lparr>dir_queue := q\<rparr>"
        show ?thesis
          by (rule progress_by_items
              [of s "image_mset (\<lambda>d. (d, 2, 0)) (mset q) + sum_list (map pc_items (pcs s))"
                "{#(d, 2, 0)#}" s' "{#}"])
            (simp_all add: s' work_items_def q)
      next
        assume s': "s' = set_pc i (Holding d) (s\<lparr>dir_queue := q\<rparr>)"
        show ?thesis
          by (rule progress_by_items
              [of s "image_mset (\<lambda>d. (d, 2, 0)) (mset q) + R" "{#(d, 2, 0)#}" s' "{#(d, 1, 0)#}"])
            (simp_all add: s' work_items_def q R Waiting)
      qed
    qed
  next
    case (Holding d)
    show ?thesis
    proof (cases "fs (d @ star_pattern)")
      case None
      with Holding step i
      have s': "s' = set_pc i Waiting (s\<lparr>active_dir_count := active_dir_count s - 1\<rparr>)"
        by (simp add: worker_step_def)
      show ?thesis
        by (rule progress_by_items [of s "?Q + R" "{#(d, 1, 0)#}" s' "{#}"])
          (simp_all add: s' work_items_def R Holding)
    next
      case (Some es)
      with Holding step i have s': "s' = set_pc i (Enumerating d es) s"
        by (simp add: worker_step_def)
      show ?thesis
        by (rule progress_by_items [of s "?Q + R" "{#(d, 1, 0)#}" s' "{#(d, 0, length es)#}"])
          (simp_all add: s' work_items_def R Holding)
    qed
  next
    case (Enumerating d es)
    show ?thesis
    proof (cases es)
      case Nil
      with Enumerating step i
      have s': "s' = set_pc i Waiting (s\<lparr>active_dir_count := active_dir_count s - 1\<rparr>)"
        by (simp add: worker_step_def)
      show ?thesis
        by (rule progress_by_items [of s "?Q + R" "{#(d, 0, 0)#}" s' "{#}"])
          (simp_all add: s' work_items_def R Enumerating Nil)
    next
      case (Cons e es')
      let ?t = "set_pc i (Enumerating d es') s"
      from Cons Enumerating step i
      have s': "s' = process_entry prog cfg utf8 d e i ?t"
        by (auto simp: worker_step_def)
      from process_entry_queue [of prog cfg utf8 d e i ?t]
      consider (same) "dir_queue s' = dir_queue s"
        | (push) "dir_queue s' = dir_queue s @ [d @ backslash @ cFileName e]"
            "is_directory e" "\<not> is_dot_or_dotdot (cFileName e)"
        unfolding s' by auto
      then show ?thesis
      proof cases
        case same
        show ?thesis
          by (rule progress_by_items
              [of s "?Q + R" "{#(d, 0, Suc (length es'))#}" s' "{#(d, 0, length es')#}"])
            (simp_all add: work_items_def same R Enumerating Cons, simp_all add: s' R)
      next
        case push
        from linv ip Enumerating Cons obtain pre where
          "fs (d @ star_pattern) = Some (pre @ e # es')"
          unfolding listing_inv_def nth [symmetric] by (metis nth_mem)
        with push have "(d @ backslash @ cFileName e, d) \<in> subdir_rel fs"
          by (auto simp: subdir_rel_def)
        then show ?thesis
          by (intro progress_by_items
              [of s "?Q + R" "{#(d, 0, Suc (length es'))#}" s'
                "{#(d, 0, length es'), (d @ backslash @ cFileName e, 2, 0)#}"])
            (simp_all add: work_items_def push R Enumerating Cons, simp_all add: s' R)
      qed
    qed
  next
    case Leaving
    with step i have s': "s' = set_pc i Exited (final_flush i s)"
      by (simp add: worker_step_def)
    show ?thesis
      by (rule progress_by_rank)
        (simp_all add: s' work_items_def control_rank_def R r Leaving)
  next
    case Exited
    with step i show ?thesis by (simp add: worker_step_def)
  qed
qed

lemma coordinator_step_progress:
  "coordinator_step s = Some s' \<Longrightarrow> (s', s) \<in> progress_order fs"
  by (rule progress_by_rank)
    (auto simp: coordinator_step_def work_items_def control_rank_def
      split: coordinator_pc.splits if_splits)

lemma listing_inv_set_pc:
  assumes "listing_inv fs s"
    and "\<forall>d es. p = Enumerating d es \<longrightarrow> (\<exists>pre. fs (d @ star_pattern) = Some (pre @ es))"
    and "pcs s' = (pcs s)[i := p]"
  shows "listing_inv fs s'"
  using assms unfolding listing_inv_def
  by (auto dest!: set_update_cases)

lemma worker_step_listing_inv:
  assumes step: "worker_step prog cfg fs utf8 i s = Some s'"
    and linv: "listing_inv fs s"
  shows "listing_inv fs s'"
proof -
  from step have i: "i < length (workers s)"
    by (auto simp: worker_step_def split: if_splits)
  then have mem: "pc (workers s ! i) \<in> set (pcs s)"
    by (simp add: pcs_def)
  show ?thesis
  proof (cases "pc (workers s ! i)")
    case Waiting
    from Waiting step i
    have "pcs s' = pcs s \<or> pcs s' = (pcs s)[i := Leaving] \<or>
          pcs s' = (pcs s)[i := Holding (hd (dir_queue s))]"
      by (auto simp: worker_step_def Let_def split: if_splits)
    then show ?thesis
    proof (elim disjE)
      assume "pcs s' = pcs s"
      with linv show ?thesis by (simp add: listing_inv_def)
    next
      assume "pcs s' = (pcs s)[i := Leaving]"
      then show ?thesis
        by (intro listing_inv_set_pc [OF linv, of Leaving]) auto
    next
      assume "pcs s' = (pcs s)[i := Holding (hd (dir_queue s))]"
      then show ?thesis
        by (intro listing_inv_set_pc [OF linv, of "Holding (hd (dir_queue s))"]) auto
    qed
  next
    case (Holding d)
    show ?thesis
    proof (cases "fs (d @ star_pattern)")
      case None
      with Holding step i have "pcs s' = (pcs s)[i := Waiting]"
        by (auto simp: worker_step_def)
      then show ?thesis
        by (intro listing_inv_set_pc [OF linv, of Waiting]) auto
    next
      case (Some es)
      with Holding step i have "pcs s' = (pcs s)[i := Enumerating d es]"
        by (auto simp: worker_step_def)
      moreover from Some have "\<exists>pre. fs (d @ star_pattern) = Some (pre @ es)"
        by (intro exI [of _ "[]"]) simp
      ultimately show ?thesis
        by (intro listing_inv_set_pc [OF linv, of "Enumerating d es"]) auto
    qed
  next
    case (Enumerating d es)
    show ?thesis
    proof (cases es)
      case Nil
      with Enumerating step i have "pcs s' = (pcs s)[i := Waiting]"
        by (auto simp: worker_step_def)
      then show ?thesis
        by (intro listing_inv_set_pc [OF linv, of Waiting]) auto
    next
      case (Cons e es')
      with Enumerating step i have "pcs s' = (pcs s)[i := Enumerating d es']"
        by (auto simp: worker_step_def)
      moreover from linv mem Enumerating Cons obtain pre where
        "fs (d @ star_pattern) = Some (pre @ e # es')"
        unfolding listing_inv_def by metis
      then have "\<exists>pre. fs (d @ star_pattern) = Some (pre @ es')"
        by (intro exI [of _ "pre @ [e]"]) simp
      ultimately show ?thesis
        by (intro listing_inv_set_pc [OF linv, of "Enumerating d es'"]) auto
    qed
  next
    case Leaving
    with step i have "pcs s' = (pcs s)[i := Exited]"
      by (auto simp: worker_step_def)
    then show ?thesis
      by (intro listing_inv_set_pc [OF linv, of Exited]) auto
  next
    case Exited
    with step i show ?thesis by (simp add: worker_step_def)
  qed
qed

lemma coordinator_step_listing_inv:
  "coordinator_step s = Some s' \<Longrightarrow> listing_inv fs s \<Longrightarrow> listing_inv fs s'"
  by (auto simp: coordinator_step_def listing_inv_def split: coordinator_pc.splits if_splits)

lemma sys_step_pool_size:
  assumes "sys_step prog cfg fs utf8 ev s = Some s'"
  shows "length (workers s') = length (workers s)"
proof -
  have "length (pcs s') = length (pcs s)"
  proof (cases ev)
    case (Worker i)
    with assms have step: "worker_step prog cfg fs utf8 i s = Some s'"
      by (simp add: sys_step_def)
    then have i: "i < length (workers s)"
      by (auto simp: worker_step_def split: if_splits)
    from step i show ?thesis
      by (cases "pc (workers s ! i)")
        (auto simp del: pcs_length simp: worker_step_def Let_def
          split: if_splits option.splits list.splits)
  next
    case Coordinator
    with assms show ?thesis
      by (auto simp del: pcs_length simp: sys_step_def coordinator_step_def
          split: coordinator_pc.splits if_splits)
  qed
  then show ?thesis by simp
qed

text \<open>What holds in every state a run from the launch state reaches.\<close>

lemma exec_progress_inv:
  "exec prog cfg fs utf8 sched s = Some s' \<Longrightarrow> listing_inv fs s \<Longrightarrow>
   listing_inv fs s' \<and> length (workers s') = length (workers s)"
proof (induction sched arbitrary: s)
  case Nil
  then show ?case by simp
next
  case (Cons ev sched)
  from Cons.prems(1) obtain t where t: "sys_step prog cfg fs utf8 ev s = Some t"
    and rest: "exec prog cfg fs utf8 sched t = Some s'"
    by (auto split: option.splits)
  from t Cons.prems(2) have "listing_inv fs t"
    by (cases ev)
      (auto simp: sys_step_def intro: worker_step_listing_inv coordinator_step_listing_inv)
  from Cons.IH [OF rest this] sys_step_pool_size [OF t] show ?case by simp
qed

lemma launch_listing_inv:
  "launch prog cfg fs n = Some s0 \<Longrightarrow> listing_inv fs s0 \<and> length (workers s0) = n"
  by (auto simp: launch_def listing_inv_def pcs_def split: prod.splits if_splits)

lemma sys_step_progress:
  "sys_step prog cfg fs utf8 ev s = Some s' \<Longrightarrow> listing_inv fs s \<Longrightarrow>
   (s', s) \<in> progress_order fs"
  by (cases ev) (auto simp: sys_step_def intro: worker_step_progress coordinator_step_progress)

text \<open>No deadlock: unless the coordinator has finished, some thread can move.\<close>

lemma some_thread_can_move:
  assumes cinv: "counter_inv s" and sinv: "shutdown_inv s"
    and pool: "workers s \<noteq> []" and nfin: "coordinator s \<noteq> Finished"
  shows "\<exists>ev s'. sys_step prog cfg fs utf8 ev s = Some s'"
proof (cases "\<exists>i < length (workers s). pc (workers s ! i) \<noteq> Waiting \<and> pc (workers s ! i) \<noteq> Exited")
  case True
  then obtain i where i: "i < length (workers s)"
    and p: "pc (workers s ! i) \<noteq> Waiting" "pc (workers s ! i) \<noteq> Exited"
    by blast
  then have "\<exists>s'. worker_step prog cfg fs utf8 i s = Some s'"
    by (cases "pc (workers s ! i)")
      (auto simp: worker_step_def split: option.splits list.splits)
  then show ?thesis
    by (auto simp: sys_step_def intro: exI [of _ "Worker i"])
next
  case False
  then have idle: "\<And>i. i < length (workers s) \<Longrightarrow>
      pc (workers s ! i) = Waiting \<or> pc (workers s ! i) = Exited"
    by blast
  have "\<not> busy (pc (workers s ! i))" if "i < length (workers s)" for i
    using idle [OF that] by auto
  then have nobusy: "in_flight s = 0"
    by (auto simp: in_flight_def pcs_def filter_empty_conv in_set_conv_nth)
  show ?thesis
  proof (cases "coordinator s")
    case Polling
    with sinv have nd: "\<not> done_flag s"
      by (simp add: shutdown_inv_def)
    show ?thesis
    proof (cases "dir_queue s")
      case Nil
      with cinv nobusy have "active_dir_count s = 0"
        by (simp add: counter_inv_def)
      with Nil Polling have "\<exists>s'. coordinator_step s = Some s'"
        by (simp add: coordinator_step_def)
      then show ?thesis
        by (auto simp: sys_step_def intro: exI [of _ Coordinator])
    next
      case (Cons d q)
      from pool have 0: "0 < length (workers s)" by simp
      from sinv nd 0 have "pc (workers s ! 0) \<noteq> Exited"
        by (auto simp: shutdown_inv_def pcs_def)
      with idle [OF 0] have "pc (workers s ! 0) = Waiting" by simp
      with 0 Cons have "\<exists>s'. worker_step prog cfg fs utf8 0 s = Some s'"
        by (auto simp: worker_step_def Let_def)
      then show ?thesis
        by (auto simp: sys_step_def intro: exI [of _ "Worker 0"])
    qed
  next
    case Signalling
    then have "\<exists>s'. coordinator_step s = Some s'"
      by (simp add: coordinator_step_def)
    then show ?thesis
      by (auto simp: sys_step_def intro: exI [of _ Coordinator])
  next
    case Joining
    with sinv have d: "done_flag s" and z: "active_dir_count s = 0"
      by (simp_all add: shutdown_inv_def)
    from counter_zero_idle(1) [OF cinv z] have q: "dir_queue s = []" .
    show ?thesis
    proof (cases "\<exists>i < length (workers s). pc (workers s ! i) = Waiting")
      case True
      then obtain i where "i < length (workers s)" "pc (workers s ! i) = Waiting"
        by blast
      with d q have "\<exists>s'. worker_step prog cfg fs utf8 i s = Some s'"
        by (simp add: worker_step_def)
      then show ?thesis
        by (auto simp: sys_step_def intro: exI [of _ "Worker i"])
    next
      case False
      with idle have "list_all (\<lambda>w. pc w = Exited) (workers s)"
        by (auto simp: list_all_length)
      with Joining have "\<exists>s'. coordinator_step s = Some s'"
        by (simp add: coordinator_step_def)
      then show ?thesis
        by (auto simp: sys_step_def intro: exI [of _ Coordinator])
    qed
  next
    case Finished
    with nfin show ?thesis by simp
  qed
qed

lemma finished_is_final:
  assumes "counter_inv s" and "shutdown_inv s" and "coordinator s = Finished"
  shows "final s"
proof -
  from assms have z: "active_dir_count s = 0" and d: "done_flag s"
    by (simp_all add: shutdown_inv_def)
  from counter_zero_idle(1) [OF assms(1) z] finished_all_exited [OF assms(2,3)] z d assms(3)
  show ?thesis
    by (simp add: final_def list_all_iff)
qed

section \<open>The extension of a name that has a dot\<close>

lemma find_last_of_None: "find_last_of xs c = None \<longleftrightarrow> c \<notin> set xs"
  by (induction xs) (auto split: option.splits)

lemma find_last_of_append:
  "find_last_of (xs @ ys) c =
     (case find_last_of ys c of
        Some i \<Rightarrow> Some (length xs + i)
      | None \<Rightarrow> find_last_of xs c)"
  by (induction xs) (auto split: option.splits)

text \<open>
  When the name has a dot, the last dot of the full path lies in the name, and the extension
  the programs compute is the text after the last dot of the name.
\<close>

lemma file_ext_dotted_name:
  assumes "dot \<in> set name"
  shows "file_ext (dir @ name) = file_ext name"
proof -
  from assms obtain i where i: "find_last_of name dot = Some i"
    using find_last_of_None [of name dot] by (cases "find_last_of name dot") auto
  then show ?thesis
    by (simp add: file_ext_def find_last_of_append)
qed

lemma extension_ok_dotted_name:
  assumes "dot \<in> set name" and "prog \<noteq> Fast_scan4"
  shows "extension_ok prog cfg (dir @ backslash @ name) \<longleftrightarrow>
           file_types cfg = [] \<or> (\<exists>ext \<in> set (file_types cfg). wcsicmp (file_ext name) ext = 0)"
  using assms file_ext_dotted_name [of name "dir @ backslash"]
  by (simp add: extension_ok_def extension_match_def list_ex_iff)

section \<open>Where the self-references are skipped\<close>

lemma worker_skips_self_references:
  "is_directory e \<Longrightarrow> is_dot_or_dotdot (cFileName e) \<Longrightarrow>
   process_entry prog cfg utf8 dir e i s = s"
  by (simp add: process_entry_def)

lemma seed_loop_skips_self_references:
  assumes "prog \<noteq> Fast_scan4"
    and "x \<in> set (fst (seed_loop prog cfg es (q, c)))"
  shows "x \<in> set q \<or>
         (\<exists>e \<in> set es. is_directory e \<and> \<not> is_dot_or_dotdot (cFileName e) \<and>
            x = ROOT_DIR cfg @ backslash @ cFileName e)"
  using assms
proof (induction es arbitrary: q c)
  case Nil
  then show ?case by simp
next
  case (Cons a es)
  show ?case
  proof (cases "is_directory a \<and> \<not> is_dot_or_dotdot (cFileName a) \<and>
                seed_prefix_ok cfg (cFileName a)")
    case True
    with Cons.prems have "x \<in> set (fst (seed_loop prog cfg es
        (q @ [ROOT_DIR cfg @ backslash @ cFileName a], c + 1)))"
      by simp
    from Cons.IH [OF Cons.prems(1) this] True show ?thesis by auto
  next
    case False
    with Cons.prems have "x \<in> set (fst (seed_loop prog cfg es (q, c)))"
      by (auto split: if_splits)
    from Cons.IH [OF Cons.prems(1) this] show ?thesis by auto
  qed
qed

section \<open>The two readings of the wait agree on what can be reached\<close>

lemma cv_exec_append:
  "cv_exec prog cfg fs utf8 (xs @ ys) t =
     (case cv_exec prog cfg fs utf8 xs t of
        None \<Rightarrow> None
      | Some t' \<Rightarrow> cv_exec prog cfg fs utf8 ys t')"
  by (induction xs arbitrary: t) (auto split: option.splits)

lemma cv_exec_chain:
  "cv_exec prog cfg fs utf8 xs t = Some t' \<Longrightarrow> cv_exec prog cfg fs utf8 ys t' = Some t'' \<Longrightarrow>
   cv_exec prog cfg fs utf8 (xs @ ys) t = Some t''"
  by (simp add: cv_exec_append)

lemma wake_one_length [simp]: "length (wake_one ws) = length ws"
  by (induction ws) simp_all

lemma wake_one_replicate [simp]: "wake_one (replicate n Awake) = replicate n Awake"
  by (induction n) simp_all

lemma all_awake_simps [simp]:
  "shared (all_awake b s) = s" "q_cv (all_awake b s) = replicate (length (workers s)) Awake"
  "notified (all_awake b s) = b" "\<not> q_m_held (all_awake b s)"
  by (simp_all add: all_awake_def q_m_held_def)

lemma all_awake_shared:
  "length (workers s') = length (workers s) \<Longrightarrow> (all_awake b s)\<lparr>shared := s'\<rparr> = all_awake b s'"
  by (simp add: all_awake_def)

lemma notify_one_all_awake [simp]: "notify_one (all_awake b s) = all_awake b s"
  by (simp add: notify_one_def all_awake_def)

lemma notify_all_all_awake [simp]: "notify_all (all_awake b s) = all_awake b s"
  by (simp add: notify_all_def all_awake_def)

text \<open>
  A step of a worker under the guard reading is a step of a worker none of whose fellows
  waits on the condition variable.
\<close>

lemma worker_step_embeds:
  assumes "worker_step prog cfg fs utf8 i s = Some s'"
  shows "cv_worker_step prog cfg fs utf8 i (all_awake b s) = Some (all_awake b s')"
proof -
  from assms have i: "i < length (workers s)"
    by (auto simp: worker_step_def split: if_splits)
  from assms have len: "length (workers s') = length (workers s)"
    using sys_step_pool_size [of prog cfg fs utf8 "Worker i" s s'] by (simp add: sys_step_def)
  have pred: "\<not> (dir_queue s = [] \<and> \<not> done_flag s)" if "pc (workers s ! i) = Waiting"
    using assms i that by (auto simp: worker_step_def split: if_splits)
  from assms i len pred show ?thesis
    by (auto simp: cv_worker_step_def all_awake_shared split: pc.splits list.splits)
qed

lemma exec_workers_embeds:
  "exec prog cfg fs utf8 sched s = Some s' \<Longrightarrow> Coordinator \<notin> set sched \<Longrightarrow>
   cv_exec prog cfg fs utf8 sched (all_awake b s) = Some (all_awake b s')"
proof (induction sched arbitrary: s)
  case Nil
  then show ?case by simp
next
  case (Cons ev sched)
  from Cons.prems(2) obtain i where ev: "ev = Worker i"
    by (cases ev) auto
  with Cons.prems(1) obtain s1 where s1: "worker_step prog cfg fs utf8 i s = Some s1"
    and rest: "exec prog cfg fs utf8 sched s1 = Some s'"
    by (auto simp: sys_step_def split: option.splits)
  from Cons.IH [OF rest] Cons.prems(2) worker_step_embeds [OF s1, of b] ev show ?case
    by (simp add: cv_sys_step_def)
qed

lemma worker_step_coordinator:
  assumes "worker_step prog cfg fs utf8 i s = Some s'"
  shows "coordinator s' = coordinator s"
proof -
  have pe: "coordinator (process_entry prog cfg utf8 d e i u) = coordinator u" for d e u
    by (simp add: process_entry_def set_buf_def enqueue_def Let_def)
  from assms show ?thesis
    by (auto simp: worker_step_def pe set_pc_def final_flush_def set_buf_def Let_def
        split: if_splits pc.splits option.splits list.splits)
qed

text \<open>
  Every run under the guard reading is a run with the condition variable in which no worker
  ever finds its predicate false; where \<^verbatim>\<open>main\<close> takes one step to signal, it takes two.
\<close>

lemma coordinator_step_embeds:
  assumes "coordinator_step s = Some s'"
  shows "\<exists>evs. cv_exec prog cfg fs utf8 evs
             (all_awake (coordinator s = Joining \<or> coordinator s = Finished) s) =
           Some (all_awake (coordinator s' = Joining \<or> coordinator s' = Finished) s')"
proof (cases "coordinator s")
  case Polling
  with assms have s': "s' = s\<lparr>coordinator := Signalling\<rparr>"
    by (auto simp: coordinator_step_def split: if_splits)
  from assms Polling have
    "cv_exec prog cfg fs utf8 [Coordinator] (all_awake False s) = Some (all_awake False s')"
    by (simp add: cv_sys_step_def cv_coordinator_step_def s' all_awake_def q_m_held_def)
  then have "\<exists>evs. cv_exec prog cfg fs utf8 evs (all_awake False s) = Some (all_awake False s')"
    by (rule exI)
  with Polling s' show ?thesis by simp
next
  case Signalling
  with assms have s': "s' = s\<lparr>done_flag := True, coordinator := Joining\<rparr>"
    by (auto simp: coordinator_step_def)
  from assms Signalling have
    "cv_exec prog cfg fs utf8 [Coordinator, Coordinator] (all_awake False s) =
       Some (all_awake True s')"
    by (simp add: cv_sys_step_def cv_coordinator_step_def s' all_awake_def notify_all_def
        q_m_held_def)
  then have "\<exists>evs. cv_exec prog cfg fs utf8 evs (all_awake False s) = Some (all_awake True s')"
    by (rule exI)
  with Signalling s' show ?thesis by simp
next
  case Joining
  with assms have s': "s' = s\<lparr>coordinator := Finished\<rparr>"
    by (auto simp: coordinator_step_def split: if_splits)
  from assms Joining have
    "cv_exec prog cfg fs utf8 [Coordinator] (all_awake True s) = Some (all_awake True s')"
    by (simp add: cv_sys_step_def cv_coordinator_step_def s' all_awake_def q_m_held_def)
  then have "\<exists>evs. cv_exec prog cfg fs utf8 evs (all_awake True s) = Some (all_awake True s')"
    by (rule exI)
  with Joining s' show ?thesis by simp
next
  case Finished
  with assms show ?thesis by (simp add: coordinator_step_def)
qed

lemma exec_embeds:
  "exec prog cfg fs utf8 sched s = Some s' \<Longrightarrow>
   \<exists>sched'. cv_exec prog cfg fs utf8 sched'
       (all_awake (coordinator s = Joining \<or> coordinator s = Finished) s) =
     Some (all_awake (coordinator s' = Joining \<or> coordinator s' = Finished) s')"
proof (induction sched arbitrary: s)
  case Nil
  then have "cv_exec prog cfg fs utf8 []
       (all_awake (coordinator s = Joining \<or> coordinator s = Finished) s) =
     Some (all_awake (coordinator s' = Joining \<or> coordinator s' = Finished) s')"
    by simp
  then show ?case by blast
next
  case (Cons ev sched)
  from Cons.prems obtain s1 where s1: "sys_step prog cfg fs utf8 ev s = Some s1"
    and rest: "exec prog cfg fs utf8 sched s1 = Some s'"
    by (auto split: option.splits)
  from Cons.IH [OF rest] obtain tl' where tl': "cv_exec prog cfg fs utf8 tl'
       (all_awake (coordinator s1 = Joining \<or> coordinator s1 = Finished) s1) =
     Some (all_awake (coordinator s' = Joining \<or> coordinator s' = Finished) s')"
    by blast
  have "\<exists>hd'. cv_exec prog cfg fs utf8 hd'
       (all_awake (coordinator s = Joining \<or> coordinator s = Finished) s) =
     Some (all_awake (coordinator s1 = Joining \<or> coordinator s1 = Finished) s1)"
  proof (cases ev)
    case (Worker i)
    with s1 have w: "worker_step prog cfg fs utf8 i s = Some s1"
      by (simp add: sys_step_def)
    from worker_step_embeds [OF w] worker_step_coordinator [OF w]
    have "cv_exec prog cfg fs utf8 [Worker i]
       (all_awake (coordinator s = Joining \<or> coordinator s = Finished) s) =
     Some (all_awake (coordinator s1 = Joining \<or> coordinator s1 = Finished) s1)"
      by (simp add: cv_sys_step_def)
    then show ?thesis by blast
  next
    case Coordinator
    with s1 have "coordinator_step s = Some s1"
      by (simp add: sys_step_def)
    from coordinator_step_embeds [OF this] show ?thesis .
  qed
  then obtain hd' where "cv_exec prog cfg fs utf8 hd'
       (all_awake (coordinator s = Joining \<or> coordinator s = Finished) s) =
     Some (all_awake (coordinator s1 = Joining \<or> coordinator s1 = Finished) s1)"
    by blast
  from cv_exec_chain [OF this tl'] show ?case by blast
qed

lemma launch_coordinator: "launch prog cfg fs n = Some s0 \<Longrightarrow> coordinator s0 = Polling"
  by (auto simp: launch_def split: prod.splits if_splits)

lemma scan_output_embeds:
  assumes "scan_output prog cfg fs utf8 n sched = Some out"
  shows "\<exists>sched'. cv_scan_output prog cfg fs utf8 n sched' = Some out"
proof (cases "launch prog cfg fs n")
  case None
  with assms show ?thesis
    by (simp add: scan_output_def cv_scan_output_def cv_launch_def)
next
  case (Some s0)
  with assms obtain s where run: "exec prog cfg fs utf8 sched s0 = Some s"
    and fin: "coordinator s = Finished" and out: "out = out_fp s"
    by (auto simp: scan_output_def split: option.splits if_splits)
  from exec_embeds [OF run] launch_coordinator [OF Some] fin
  obtain sched' where "cv_exec prog cfg fs utf8 sched' (all_awake False s0) =
      Some (all_awake True s)"
    by auto
  with Some fin out have "cv_scan_output prog cfg fs utf8 n sched' = Some out"
    by (simp add: cv_scan_output_def cv_launch_def)
  then show ?thesis by blast
qed





section \<open>Evaluating the filters on the example\<close>

lemma L_simps [simp]: "length (L s) = length s" "L s = [] \<longleftrightarrow> s = []"
  by (simp_all add: L_def)

lemma backslash_length [simp]: "length backslash = 1"
  by (simp add: backslash_def)

lemma ex_entry_simps [simp]:
  "is_directory (ex_dir n)" "cFileName (ex_dir n) = L n"
  "\<not> is_directory (ex_file n)" "cFileName (ex_file n) = L n"
  by (simp_all add: ex_dir_def ex_file_def)

lemma ex_cfg_simps [simp]:
  "ROOT_DIR ex_cfg = L ''C:''" "PREFIX ex_cfg = L ''A''" "file_types ex_cfg = [L ''txt'']"
  "OUTPUT_BUFFER_FLUSH_COUNT ex_cfg = 5000"
  by (simp_all add: ex_cfg_def)

lemma ex_utf8_length [simp]: "length (ex_utf8 w) = length w"
  by (simp add: ex_utf8_def)

lemma ex_fs_simps:
  "ex_fs (L ''C:'' @ star_pattern) =
     Some [ex_dir ''.'', ex_dir ''..'', ex_dir ''A'', ex_dir ''B'', ex_file ''file1.txt'']"
  "ex_fs (L ''C:'' @ backslash @ L ''A'' @ star_pattern) =
     Some [ex_dir ''.'', ex_dir ''..'', ex_file ''a.txt'', ex_file ''b.doc'', ex_dir ''sub'',
           ex_dir ''locked'']"
  "ex_fs (L ''C:'' @ backslash @ L ''A'' @ backslash @ L ''sub'' @ star_pattern) =
     Some [ex_dir ''.'', ex_dir ''..'', ex_file ''c.txt'']"
  "ex_fs (L ''C:'' @ backslash @ L ''A'' @ backslash @ L ''locked'' @ star_pattern) = None"
  by (simp_all add: ex_fs_def L_def backslash_def star_pattern_def)

lemma ex_dots:
  "is_dot_or_dotdot (L ''.'')" "is_dot_or_dotdot (L ''..'')"
  "\<not> is_dot_or_dotdot (L ''A'')" "\<not> is_dot_or_dotdot (L ''B'')"
  "\<not> is_dot_or_dotdot (L ''sub'')" "\<not> is_dot_or_dotdot (L ''locked'')"
  by (simp_all add: is_dot_or_dotdot_def L_def c_at_def dot_def)

lemma ex_seed:
  "seed_prefix_ok ex_cfg (L ''A'')" "\<not> seed_prefix_ok ex_cfg (L ''B'')"
  "\<not> seed_prefix_ok ex_cfg (L ''.'')" "\<not> seed_prefix_ok ex_cfg (L ''..'')"
  by (simp_all add: seed_prefix_ok_def L_def c_head_def towlower_def)

lemma ex_pruned:
  "\<not> pruned Landrys ex_cfg (L ''C:'' @ backslash @ L ''A'' @ backslash @ L ''sub'')"
  "\<not> pruned Landrys ex_cfg (L ''C:'' @ backslash @ L ''A'' @ backslash @ L ''locked'')"
  by (simp_all add: pruned_def L_def backslash_def)

lemma ex_extension:
  "extension_ok Landrys ex_cfg (L ''C:'' @ backslash @ L ''A'' @ backslash @ L ''a.txt'')"
  "\<not> extension_ok Landrys ex_cfg (L ''C:'' @ backslash @ L ''A'' @ backslash @ L ''b.doc'')"
  "extension_ok Landrys ex_cfg
     (L ''C:'' @ backslash @ L ''A'' @ backslash @ L ''sub'' @ backslash @ L ''c.txt'')"
  by (simp_all add: extension_ok_def extension_match_def file_ext_def L_def backslash_def dot_def
      c_head_def towlower_def)

lemmas ex_facts = ex_fs_simps ex_dots ex_seed ex_pruned ex_extension

lemmas step_defs = sys_step_def worker_step_def coordinator_step_def process_entry_def
  set_pc_def set_buf_def enqueue_def final_flush_def buf_size_def Let_def

section \<open>The concrete run, step by step\<close>

lemma ex_launch: "launch Landrys ex_cfg ex_fs 2 = Some ex_s0"
  by (simp add: launch_def initialize_directory_queue_def ex_facts ex_s0_def numeral_2_eq_2)

lemma ex_run_0_7:
  "exec Landrys ex_cfg ex_fs ex_utf8
     [Worker 0, Worker 0, Worker 0, Worker 0, Worker 0, Worker 0, Worker 0] ex_s0 = Some ex_s7"
  by (simp add: ex_s0_def ex_s7_def step_defs ex_facts)

lemma ex_step_7_8: "worker_step Landrys ex_cfg ex_fs ex_utf8 0 ex_s7 = Some ex_s8"
  by (simp add: ex_s7_def ex_s8_def step_defs ex_facts)

lemma ex_step_8_9: "worker_step Landrys ex_cfg ex_fs ex_utf8 0 ex_s8 = Some ex_s9"
  by (simp add: ex_s8_def ex_s9_def step_defs ex_facts)

lemma ex_run_9_12:
  "exec Landrys ex_cfg ex_fs ex_utf8 [Worker 1, Worker 1, Worker 0] ex_s9 = Some ex_s12"
  by (simp add: ex_s9_def ex_s12_def step_defs ex_facts)

lemma ex_step_12_13: "worker_step Landrys ex_cfg ex_fs ex_utf8 0 ex_s12 = Some ex_s13"
  by (simp add: ex_s12_def ex_s13_def step_defs ex_facts)

lemma ex_run_13_17:
  "exec Landrys ex_cfg ex_fs ex_utf8 [Worker 1, Worker 1, Worker 1, Worker 1] ex_s13 =
     Some ex_s17"
  by (simp add: ex_s13_def ex_s17_def step_defs ex_facts)

lemma ex_run_17_19:
  "exec Landrys ex_cfg ex_fs ex_utf8 [Coordinator, Coordinator] ex_s17 = Some ex_s19"
  by (simp add: ex_s17_def ex_s19_def step_defs)

lemma ex_step_19_20: "worker_step Landrys ex_cfg ex_fs ex_utf8 0 ex_s19 = Some ex_s20"
  by (simp add: ex_s19_def ex_s20_def step_defs)

lemma ex_run_20_23:
  "exec Landrys ex_cfg ex_fs ex_utf8 [Worker 1, Worker 1, Worker 0] ex_s20 = Some ex_s23"
  by (simp add: ex_s20_def ex_s23_def step_defs)

lemma ex_step_23_24: "coordinator_step ex_s23 = Some ex_final"
  by (simp add: ex_s23_def ex_final_def step_defs)

lemma exec_one_worker:
  "worker_step prog cfg fs utf8 i s = Some s' \<Longrightarrow>
   exec prog cfg fs utf8 [Worker i] s = Some s'"
  by (simp add: sys_step_def)

lemma exec_one_coordinator:
  "coordinator_step s = Some s' \<Longrightarrow> exec prog cfg fs utf8 [Coordinator] s = Some s'"
  by (simp add: sys_step_def)

lemmas ex_run_0_8 = exec_chain [OF ex_run_0_7 exec_one_worker [OF ex_step_7_8]]
lemmas ex_run_0_9 = exec_chain [OF ex_run_0_8 exec_one_worker [OF ex_step_8_9]]
lemmas ex_run_0_12 = exec_chain [OF ex_run_0_9 ex_run_9_12]
lemmas ex_run_0_13 = exec_chain [OF ex_run_0_12 exec_one_worker [OF ex_step_12_13]]
lemmas ex_run_0_17 = exec_chain [OF ex_run_0_13 ex_run_13_17]
lemmas ex_run_0_19 = exec_chain [OF ex_run_0_17 ex_run_17_19]
lemmas ex_run_0_20 = exec_chain [OF ex_run_0_19 exec_one_worker [OF ex_step_19_20]]
lemmas ex_run_0_23 = exec_chain [OF ex_run_0_20 ex_run_20_23]

lemma ex_run_complete: "exec Landrys ex_cfg ex_fs ex_utf8 ex_sched ex_s0 = Some ex_final"
  using exec_chain [OF ex_run_0_23 exec_one_coordinator [OF ex_step_23_24]]
  by (simp add: ex_sched_def)

text \<open>The example tree is finite.\<close>

lemma ex_fs_length: "ex_fs p = Some es \<Longrightarrow> length p \<le> 12"
  by (auto simp: ex_fs_def star_pattern_def split: if_splits)

lemma ex_fs_finite: "wf (subdir_rel ex_fs)"
proof -
  have "subdir_rel ex_fs \<subseteq> measure (\<lambda>p. 12 - length p)"
    by (auto simp: subdir_rel_def star_pattern_def dest!: ex_fs_length)
  from wf_subset [OF wf_measure this] show ?thesis .
qed

section \<open>The Active-Work Counter\<close>

text \<open>
  C2. In every state the scan can reach, the Active-Work Counter equals the number of
  directories in the queue plus the number of directories held or being enumerated by a
  worker, each counted once. While some worker is busy with a directory the counter is
  positive, the coordinator is still polling and the done flag is not set. A worker step that
  makes the queue longer increments the counter in the same critical section, and the only
  worker steps that lower the counter are the one after the last entry of a directory and the
  one on a directory that could not be opened.
\<close>

theorem active_work_counter_invariant:
  assumes "launch prog cfg fs n = Some s0"
    and "exec prog cfg fs utf8 sched s0 = Some s"
  shows "active_dir_count s = int (length (dir_queue s)) + int (in_flight s) \<and>
         (\<forall>i < length (workers s). busy (pc (workers s ! i)) \<longrightarrow>
            0 < active_dir_count s \<and> coordinator s = Polling \<and> \<not> done_flag s) \<and>
         (\<forall>i s'. worker_step prog cfg fs utf8 i s = Some s' \<longrightarrow>
            (length (dir_queue s) < length (dir_queue s') \<longrightarrow>
               active_dir_count s' = active_dir_count s + 1) \<and>
            (active_dir_count s' < active_dir_count s \<longrightarrow>
               (\<exists>d. pc (workers s ! i) = Enumerating d [] \<or>
                    (pc (workers s ! i) = Holding d \<and> fs (d @ star_pattern) = None))))"
proof -
  from reachable_inv [OF assms] have cinv: "counter_inv s" and sinv: "shutdown_inv s"
    by simp_all
  have count: "active_dir_count s = int (length (dir_queue s)) + int (in_flight s)"
    using cinv by (simp add: counter_inv_def)
  have busy: "0 < active_dir_count s \<and> coordinator s = Polling \<and> \<not> done_flag s"
    if "i < length (workers s)" "busy (pc (workers s ! i))" for i
  proof -
    from in_flight_pos [OF that] count have pos: "0 < active_dir_count s"
      by simp
    with sinv have "coordinator s = Polling"
      by (auto simp: shutdown_inv_def)
    with sinv pos show ?thesis
      by (auto simp: shutdown_inv_def)
  qed
  from count busy worker_step_counter_change [of prog cfg fs utf8 _ s] show ?thesis
    by blast
qed

theorem active_work_counter_invariant_witness:
  "launch Landrys ex_cfg ex_fs 2 = Some ex_s0 \<and>
   exec Landrys ex_cfg ex_fs ex_utf8
     [Worker 0, Worker 0, Worker 0, Worker 0, Worker 0, Worker 0, Worker 0] ex_s0 = Some ex_s7 \<and>
   busy (pc (workers ex_s7 ! 0)) \<and>
   active_dir_count ex_s7 = int (length (dir_queue ex_s7)) + int (in_flight ex_s7) \<and>
   0 < active_dir_count ex_s7 \<and>
   worker_step Landrys ex_cfg ex_fs ex_utf8 0 ex_s7 = Some ex_s8 \<and>
   length (dir_queue ex_s7) < length (dir_queue ex_s8) \<and>
   active_dir_count ex_s8 = active_dir_count ex_s7 + 1"
proof -
  have b: "0 < length (workers ex_s7)" "busy (pc (workers ex_s7 ! 0))"
    by (simp_all add: ex_s7_def)
  have longer: "length (dir_queue ex_s7) < length (dir_queue ex_s8)"
    by (simp add: ex_s7_def ex_s8_def)
  from active_work_counter_invariant [OF ex_launch ex_run_0_7] b longer ex_step_7_8
  have "active_dir_count ex_s7 = int (length (dir_queue ex_s7)) + int (in_flight ex_s7) \<and>
        0 < active_dir_count ex_s7 \<and> active_dir_count ex_s8 = active_dir_count ex_s7 + 1"
    by blast
  with b longer ex_launch ex_run_0_7 ex_step_7_8 show ?thesis
    by simp
qed

section \<open>Leaving the worker loop\<close>

text \<open>
  C10. In every reachable state, if some worker has left its loop (before or after its final
  flush), then the done flag is set, the queue is empty, the counter is 0 and no worker holds
  or enumerates a directory: everything that was enqueued has been dequeued and dealt with.
  And in any state whatever, a waiting worker leaves the loop only if the done flag is set and
  the queue is empty.
\<close>

theorem worker_exits_only_when_done_and_queue_empty:
  assumes "launch prog cfg fs n = Some s0"
    and "exec prog cfg fs utf8 sched s0 = Some s"
  shows "(\<forall>i < length (workers s).
            pc (workers s ! i) = Leaving \<or> pc (workers s ! i) = Exited \<longrightarrow>
            done_flag s \<and> dir_queue s = [] \<and> active_dir_count s = 0 \<and> in_flight s = 0) \<and>
         (\<forall>t i t'. worker_step prog cfg fs utf8 i t = Some t' \<longrightarrow>
            pc (workers t ! i) = Waiting \<longrightarrow> pc (workers t' ! i) = Leaving \<longrightarrow>
            done_flag t \<and> dir_queue t = [])"
proof -
  from reachable_inv [OF assms] have cinv: "counter_inv s" and sinv: "shutdown_inv s"
    by simp_all
  have left: "done_flag s \<and> dir_queue s = [] \<and> active_dir_count s = 0 \<and> in_flight s = 0"
    if "i < length (workers s)" "pc (workers s ! i) = Leaving \<or> pc (workers s ! i) = Exited"
    for i
  proof -
    from that have "pc (workers s ! i) \<in> set (pcs s)"
      by (simp add: pcs_def)
    with that sinv have d: "done_flag s"
      by (auto simp: shutdown_inv_def)
    with sinv have z: "active_dir_count s = 0"
      by (auto simp: shutdown_inv_def)
    with cinv have "length (dir_queue s) + in_flight s = 0"
      unfolding counter_inv_def by linarith
    then have "dir_queue s = [] \<and> in_flight s = 0"
      by simp
    with d z show ?thesis by simp
  qed
  have exit: "done_flag t \<and> dir_queue t = []"
    if "worker_step prog cfg fs utf8 i t = Some t'" "pc (workers t ! i) = Waiting"
      "pc (workers t' ! i) = Leaving" for t i t'
  proof -
    from that(1) have i: "i < length (workers t)"
      by (auto simp: worker_step_def split: if_splits)
    with that show ?thesis
      by (cases "dir_queue t")
        (auto simp: worker_step_def Let_def set_pc_def split: if_splits)
  qed
  from left exit show ?thesis by blast
qed

theorem worker_exits_only_when_done_and_queue_empty_witness:
  "launch Landrys ex_cfg ex_fs 2 = Some ex_s0 \<and>
   exec Landrys ex_cfg ex_fs ex_utf8
     ([Worker 0, Worker 0, Worker 0, Worker 0, Worker 0, Worker 0, Worker 0] @ [Worker 0] @
      [Worker 0] @ [Worker 1, Worker 1, Worker 0] @ [Worker 0] @
      [Worker 1, Worker 1, Worker 1, Worker 1] @ [Coordinator, Coordinator] @ [Worker 0])
     ex_s0 = Some ex_s20 \<and>
   pc (workers ex_s20 ! 0) = Leaving \<and>
   done_flag ex_s20 \<and> dir_queue ex_s20 = [] \<and> active_dir_count ex_s20 = 0 \<and>
   in_flight ex_s20 = 0 \<and>
   worker_step Landrys ex_cfg ex_fs ex_utf8 0 ex_s19 = Some ex_s20 \<and>
   pc (workers ex_s19 ! 0) = Waiting \<and> done_flag ex_s19 \<and> dir_queue ex_s19 = []"
proof -
  have l: "0 < length (workers ex_s20)" "pc (workers ex_s20 ! 0) = Leaving"
    by (simp_all add: ex_s20_def)
  have w: "pc (workers ex_s19 ! 0) = Waiting"
    by (simp add: ex_s19_def)
  from worker_exits_only_when_done_and_queue_empty [OF ex_launch ex_run_0_20] l w ex_step_19_20
  have "done_flag ex_s20 \<and> dir_queue ex_s20 = [] \<and> active_dir_count ex_s20 = 0 \<and>
        in_flight ex_s20 = 0 \<and> done_flag ex_s19 \<and> dir_queue ex_s19 = []"
    by blast
  with l w ex_launch ex_run_0_20 ex_step_19_20 show ?thesis
    by simp
qed

section \<open>Where the sources depart from the specification\<close>

text \<open>
  C5. The later two sources test a subdirectory with \<^verbatim>\<open>subdir.find(PREFIX)\<close>, an exact
  comparison. With the prefix \<^verbatim>\<open>proj\<close> the seeding loop, which ignores case, admits the
  top-level directory \<^verbatim>\<open>Proj1\<close>; its subdirectory \<^verbatim>\<open>C:\Proj1\src\<close> contains the prefix
  when case is ignored, and yet the entry changes nothing: it is not enqueued.
\<close>

theorem deeper_prefix_test_is_case_sensitive:
  "seed_prefix_ok cfg_proj (L ''Proj1'') \<and>
   spec_contains_ci (L ''C:'' @ backslash @ L ''Proj1'' @ backslash @ L ''src'') (PREFIX cfg_proj) \<and>
   pruned Landrys cfg_proj (L ''C:'' @ backslash @ L ''Proj1'' @ backslash @ L ''src'') \<and>
   process_entry Landrys cfg_proj utf8 (L ''C:'' @ backslash @ L ''Proj1'') (ex_dir ''src'') i s = s \<and>
   process_entry Part_000 cfg_proj utf8 (L ''C:'' @ backslash @ L ''Proj1'') (ex_dir ''src'') i s = s"
proof -
  have a: "seed_prefix_ok cfg_proj (L ''Proj1'')"
    by (simp add: seed_prefix_ok_def cfg_proj_def L_def c_head_def towlower_def)
  have b: "spec_contains_ci (L ''C:'' @ backslash @ L ''Proj1'' @ backslash @ L ''src'')
             (PREFIX cfg_proj)"
    by (simp add: spec_contains_ci_def cfg_proj_def L_def backslash_def towlower_def)
  have c: "pruned prog cfg_proj (L ''C:'' @ backslash @ L ''Proj1'' @ backslash @ L ''src'')"
    if "prog \<noteq> Fast_scan4" for prog
    using that by (simp add: pruned_def cfg_proj_def L_def backslash_def)
  have d: "\<not> is_dot_or_dotdot (L ''src'')"
    by (simp add: is_dot_or_dotdot_def L_def c_at_def dot_def)
  from a b c [of Landrys] c [of Part_000] d show ?thesis
    by (simp add: process_entry_def)
qed

text \<open>
  C7. The extension is taken from the full path, and when the name has no dot the text after
  the last dot of the directory part (or the whole path) is compared. The file
  \<^verbatim>\<open>archive\<close> in \<^verbatim>\<open>C:\my.data\<close> has no dot in its name and still passes the filter
  \<^verbatim>\<open>--filetypes=data\archive\<close>: a line is appended and the counter incremented.
\<close>

theorem file_without_dot_can_match_extension_filter:
  "find_last_of (L ''archive'') dot = None \<and>
   file_types cfg_archive \<noteq> [] \<and>
   file_ext (L ''C:'' @ backslash @ L ''my.data'' @ backslash @ L ''archive'') =
     L ''data'' @ backslash @ L ''archive'' \<and>
   extension_ok Landrys cfg_archive (L ''C:'' @ backslash @ L ''my.data'' @ backslash @ L ''archive'') \<and>
   extension_ok Part_000 cfg_archive (L ''C:'' @ backslash @ L ''my.data'' @ backslash @ L ''archive'') \<and>
   file_count (process_entry Landrys cfg_archive ex_utf8 (L ''C:'' @ backslash @ L ''my.data'')
     (ex_file ''archive'') 0 ex_s0) = 1 \<and>
   local_out_buf (workers (process_entry Landrys cfg_archive ex_utf8
     (L ''C:'' @ backslash @ L ''my.data'') (ex_file ''archive'') 0 ex_s0) ! 0) =
     [ex_utf8 (L ''C:'' @ backslash @ L ''my.data'' @ backslash @ L ''archive'') @ [newline]]"
proof -
  have a: "find_last_of (L ''archive'') dot = None"
    by (simp add: L_def dot_def)
  have b: "file_ext (L ''C:'' @ backslash @ L ''my.data'' @ backslash @ L ''archive'') =
             L ''data'' @ backslash @ L ''archive''"
    by (simp add: file_ext_def L_def backslash_def dot_def)
  have c: "wcsicmp (L ''data'' @ backslash @ L ''archive'') (L ''data'' @ backslash @ L ''archive'') = 0"
    by (simp add: L_def backslash_def c_head_def towlower_def)
  have d: "extension_ok prog cfg_archive
             (L ''C:'' @ backslash @ L ''my.data'' @ backslash @ L ''archive'')" for prog
    by (simp add: extension_ok_def extension_match_def cfg_archive_def b c)
  have e: "OUTPUT_BUFFER_FLUSH_COUNT cfg_archive = 5000" "file_types cfg_archive \<noteq> []"
    by (simp_all add: cfg_archive_def)
  from a b d [of Landrys] d [of Part_000] e show ?thesis
    by (simp add: process_entry_def ex_s0_def set_buf_def buf_size_def Let_def)
qed

text \<open>
  C8. The seeding loop of \<^verbatim>\<open>fast_scan4.cpp\<close> has no test for \<^verbatim>\<open>.\<close> and \<^verbatim>\<open>..\<close>: with
  no prefix configured both self-references of the root are enqueued as pending directories.
  The later sources skip them at this place.
\<close>

theorem fast_scan4_seeds_self_references:
  "initialize_directory_queue Fast_scan4 cfg_all ex_fs =
     ([L ''C:'' @ backslash @ L ''.'', L ''C:'' @ backslash @ L ''..'',
       L ''C:'' @ backslash @ L ''A'', L ''C:'' @ backslash @ L ''B''], 4) \<and>
   initialize_directory_queue Part_000 cfg_all ex_fs =
     ([L ''C:'' @ backslash @ L ''A'', L ''C:'' @ backslash @ L ''B''], 2) \<and>
   initialize_directory_queue Landrys cfg_all ex_fs =
     ([L ''C:'' @ backslash @ L ''A'', L ''C:'' @ backslash @ L ''B''], 2)"
  by (simp add: initialize_directory_queue_def cfg_all_def seed_prefix_ok_def ex_fs_simps ex_dots)

lemma append_line_effect:
  assumes "i < length (workers t)"
  shows "file_count (append_line cfg line i t) = file_count t + 1 \<and>
         out_fp (append_line cfg line i t) @ local_out_buf (workers (append_line cfg line i t) ! i) =
           out_fp t @ local_out_buf (workers t ! i) @ [line]"
  using assms by (simp add: append_line_def Let_def workers_set_buf)

text \<open>
  C4. In every reachable state the matched-file counter equals the number of lines already in
  the output file (the header apart) plus the number of lines still in the workers' buffers;
  when the coordinator has finished, all buffers are empty and the number of lines after the
  header equals the counter. One entry either appends its line (to the buffer, or with the
  buffer to the file) and increments the counter, or does neither; a file whose conversion
  yields no bytes does neither.
\<close>

theorem output_lines_equal_file_count:
  assumes "launch prog cfg fs n = Some s0"
    and "exec prog cfg fs utf8 sched s0 = Some s"
  shows "hd (out_fp s) = header prog \<and>
         file_count s = int (length (tl (out_fp s))) + int (buffered s) \<and>
         (coordinator s = Finished \<longrightarrow>
            buffered s = 0 \<and> int (length (tl (out_fp s))) = file_count s) \<and>
         (\<forall>dir e i t. i < length (workers t) \<longrightarrow>
            (case entry_line prog cfg utf8 dir e of
               Some line \<Rightarrow>
                 file_count (process_entry prog cfg utf8 dir e i t) = file_count t + 1 \<and>
                 out_fp (process_entry prog cfg utf8 dir e i t) @
                   local_out_buf (workers (process_entry prog cfg utf8 dir e i t) ! i) =
                 out_fp t @ local_out_buf (workers t ! i) @ [line]
             | None \<Rightarrow>
                 file_count (process_entry prog cfg utf8 dir e i t) = file_count t \<and>
                 out_fp (process_entry prog cfg utf8 dir e i t) = out_fp t \<and>
                 workers (process_entry prog cfg utf8 dir e i t) = workers t)) \<and>
         (\<forall>dir e. \<not> is_directory e \<and> utf8 (dir @ backslash @ cFileName e) = [] \<longrightarrow>
            entry_line prog cfg utf8 dir e = None)"
proof -
  from exec_output_inv [OF assms(2) launch_output_inv [OF assms(1)]]
  have inv: "output_inv prog s" .
  then have a: "hd (out_fp s) = header prog"
    and b: "file_count s = int (length (tl (out_fp s))) + int (buffered s)"
    by (simp_all add: output_inv_def)
  have c: "buffered s = 0 \<and> int (length (tl (out_fp s))) = file_count s"
    if "coordinator s = Finished"
  proof -
    from reachable_inv [OF assms] have "shutdown_inv s" by simp
    from finished_all_exited [OF this that] have "\<forall>w \<in> set (workers s). pc w = Exited" .
    with inv have "buffered s = 0"
      by (intro buffered_zero) (auto simp: output_inv_def)
    with b show ?thesis by simp
  qed
  have d: "case entry_line prog cfg utf8 dir e of
               Some line \<Rightarrow>
                 file_count (process_entry prog cfg utf8 dir e i t) = file_count t + 1 \<and>
                 out_fp (process_entry prog cfg utf8 dir e i t) @
                   local_out_buf (workers (process_entry prog cfg utf8 dir e i t) ! i) =
                 out_fp t @ local_out_buf (workers t ! i) @ [line]
             | None \<Rightarrow>
                 file_count (process_entry prog cfg utf8 dir e i t) = file_count t \<and>
                 out_fp (process_entry prog cfg utf8 dir e i t) = out_fp t \<and>
                 workers (process_entry prog cfg utf8 dir e i t) = workers t"
    if "i < length (workers t)" for dir e i t
  proof (cases "entry_line prog cfg utf8 dir e")
    case None
    then show ?thesis
      by (auto simp: process_entry_eq entry_subdir_def entry_line_def enqueue_def
          split: if_splits)
  next
    case (Some line)
    then have "entry_subdir prog cfg dir e = None"
      by (auto simp: entry_subdir_def entry_line_def split: if_splits)
    with Some append_line_effect [OF that, of cfg line] show ?thesis
      by (simp add: process_entry_eq)
  qed
  have e: "entry_line prog cfg utf8 dir e = None"
    if "\<not> is_directory e \<and> utf8 (dir @ backslash @ cFileName e) = []" for dir e
    using that by (simp add: entry_line_def)
  from a b c d e show ?thesis by blast
qed

theorem output_lines_equal_file_count_witness:
  "launch Landrys ex_cfg ex_fs 2 = Some ex_s0 \<and>
   exec Landrys ex_cfg ex_fs ex_utf8 ex_sched ex_s0 = Some ex_final \<and>
   coordinator ex_final = Finished \<and>
   out_fp ex_final = [header Landrys, ex_line_c, ex_line_a] \<and>
   buffered ex_final = 0 \<and> int (length (tl (out_fp ex_final))) = file_count ex_final \<and>
   file_count ex_final = 2 \<and>
   entry_line Landrys ex_cfg ex_utf8 ex_A (ex_file ''a.txt'') = Some ex_line_a \<and>
   file_count (process_entry Landrys ex_cfg ex_utf8 ex_A (ex_file ''a.txt'') 0 ex_s0) =
     file_count ex_s0 + 1 \<and>
   \<not> is_directory (ex_file ''a.txt'') \<and>
   entry_line Landrys ex_cfg (\<lambda>p. []) ex_A (ex_file ''a.txt'') = None"
proof -
  have fin: "coordinator ex_final = Finished"
    "out_fp ex_final = [header Landrys, ex_line_c, ex_line_a]" "file_count ex_final = 2"
    by (simp_all add: ex_final_def ex_s23_def)
  have line: "entry_line Landrys ex_cfg ex_utf8 ex_A (ex_file ''a.txt'') = Some ex_line_a"
    by (simp add: entry_line_def ex_extension ex_utf8_def)
  have i: "0 < length (workers ex_s0)"
    by (simp add: ex_s0_def)
  have nodir: "\<not> is_directory (ex_file ''a.txt'') \<and>
      (\<lambda>p. []) (ex_A @ backslash @ cFileName (ex_file ''a.txt'')) = ([] :: string)"
    by simp
  from output_lines_equal_file_count [OF ex_launch ex_run_complete] fin
  have "buffered ex_final = 0 \<and> int (length (tl (out_fp ex_final))) = file_count ex_final"
    by blast
  moreover
  from output_lines_equal_file_count [OF ex_launch ex_run_complete] i line
  have "file_count (process_entry Landrys ex_cfg ex_utf8 ex_A (ex_file ''a.txt'') 0 ex_s0) =
     file_count ex_s0 + 1"
    by (auto split: option.splits)
  moreover
  from output_lines_equal_file_count [OF ex_launch, of "\<lambda>p. []" "[]" ex_s0] nodir
  have "entry_line Landrys ex_cfg (\<lambda>p. []) ex_A (ex_file ''a.txt'') = None"
    by simp
  ultimately show ?thesis
    using fin line ex_launch ex_run_complete by simp
qed

section \<open>The example scan, read sequentially\<close>

lemma ex_entries:
  "entry_subdir Landrys ex_cfg d (ex_dir ''.'') = None"
  "entry_subdir Landrys ex_cfg d (ex_dir ''..'') = None"
  "entry_subdir Landrys ex_cfg d (ex_file n) = None"
  "entry_line Landrys ex_cfg ex_utf8 d (ex_dir n) = None"
  "entry_subdir Landrys ex_cfg ex_A (ex_dir ''sub'') = Some ex_sub"
  "entry_subdir Landrys ex_cfg ex_A (ex_dir ''locked'') = Some ex_locked"
  "entry_line Landrys ex_cfg ex_utf8 ex_A (ex_file ''a.txt'') = Some ex_line_a"
  "entry_line Landrys ex_cfg ex_utf8 ex_A (ex_file ''b.doc'') = None"
  "entry_line Landrys ex_cfg ex_utf8 ex_sub (ex_file ''c.txt'') = Some ex_line_c"
  by (simp_all add: entry_subdir_def entry_line_def ex_dots ex_pruned ex_extension ex_utf8_def)

lemma ex_yields_locked: "yields Landrys ex_cfg ex_fs ex_utf8 ex_locked {#}"
  by (rule yields_yields_entries.unreadable) (simp add: ex_fs_simps)

lemma ex_yields_sub: "yields Landrys ex_cfg ex_fs ex_utf8 ex_sub {#ex_line_c#}"
proof -
  have "yields_entries Landrys ex_cfg ex_fs ex_utf8 ex_sub [ex_file ''c.txt''] {#ex_line_c#}"
    by (rule yields_yields_entries.matched_file [OF _ _ yields_yields_entries.no_more])
      (simp_all only: ex_entries)
  then have "yields_entries Landrys ex_cfg ex_fs ex_utf8 ex_sub
      [ex_dir ''..'', ex_file ''c.txt''] {#ex_line_c#}"
    by (rule yields_yields_entries.skipped [rotated 2]) (simp_all only: ex_entries)
  then have "yields_entries Landrys ex_cfg ex_fs ex_utf8 ex_sub
      [ex_dir ''.'', ex_dir ''..'', ex_file ''c.txt''] {#ex_line_c#}"
    by (rule yields_yields_entries.skipped [rotated 2]) (simp_all only: ex_entries)
  then show ?thesis
    by (rule yields_yields_entries.listed [rotated]) (simp add: ex_fs_simps)
qed

lemma ex_yields_A: "yields Landrys ex_cfg ex_fs ex_utf8 ex_A {#ex_line_a, ex_line_c#}"
proof -
  have "yields_entries Landrys ex_cfg ex_fs ex_utf8 ex_A [ex_dir ''locked''] ({#} + {#})"
    by (rule yields_yields_entries.subdirectory
        [OF ex_entries(6) ex_yields_locked yields_yields_entries.no_more])
  from yields_yields_entries.subdirectory [OF ex_entries(5) ex_yields_sub this]
  have "yields_entries Landrys ex_cfg ex_fs ex_utf8 ex_A [ex_dir ''sub'', ex_dir ''locked'']
      {#ex_line_c#}"
    by simp
  then have "yields_entries Landrys ex_cfg ex_fs ex_utf8 ex_A
      [ex_file ''b.doc'', ex_dir ''sub'', ex_dir ''locked''] {#ex_line_c#}"
    by (rule yields_yields_entries.skipped [rotated 2]) (simp_all only: ex_entries)
  then have "yields_entries Landrys ex_cfg ex_fs ex_utf8 ex_A
      [ex_file ''a.txt'', ex_file ''b.doc'', ex_dir ''sub'', ex_dir ''locked'']
      {#ex_line_a, ex_line_c#}"
    by (rule yields_yields_entries.matched_file [rotated 2]) (simp_all only: ex_entries)
  then have "yields_entries Landrys ex_cfg ex_fs ex_utf8 ex_A
      [ex_dir ''..'', ex_file ''a.txt'', ex_file ''b.doc'', ex_dir ''sub'', ex_dir ''locked'']
      {#ex_line_a, ex_line_c#}"
    by (rule yields_yields_entries.skipped [rotated 2]) (simp_all only: ex_entries)
  then have "yields_entries Landrys ex_cfg ex_fs ex_utf8 ex_A
      [ex_dir ''.'', ex_dir ''..'', ex_file ''a.txt'', ex_file ''b.doc'', ex_dir ''sub'',
       ex_dir ''locked''] {#ex_line_a, ex_line_c#}"
    by (rule yields_yields_entries.skipped [rotated 2]) (simp_all only: ex_entries)
  then show ?thesis
    by (rule yields_yields_entries.listed [rotated]) (simp add: ex_fs_simps)
qed

lemma ex_seeded:
  assumes "fs (L ''C:'' @ star_pattern) =
      Some [ex_dir ''.'', ex_dir ''..'', ex_dir ''A'', ex_dir ''B'', ex_file ''file1.txt'']"
  shows "initialize_directory_queue prog ex_cfg fs = ([ex_A], 1)"
  using assms
  by (simp add: initialize_directory_queue_def ex_dots ex_seed)

lemma ex_scan_yields:
  assumes "fs (L ''C:'' @ star_pattern) =
      Some [ex_dir ''.'', ex_dir ''..'', ex_dir ''A'', ex_dir ''B'', ex_file ''file1.txt'']"
  shows "scan_yields prog ex_cfg fs utf8 M \<longleftrightarrow> yields prog ex_cfg fs utf8 ex_A M"
proof
  assume "scan_yields prog ex_cfg fs utf8 M"
  then show "yields prog ex_cfg fs utf8 ex_A M"
    by (auto simp: scan_yields_def ex_seeded [of fs, OF assms] elim!: sums_to_ConsE sums_to_NilE)
next
  assume "yields prog ex_cfg fs utf8 ex_A M"
  from sums_to.sums_Cons [of "yields prog ex_cfg fs utf8" ex_A M "[]" "{#}"] this
    sums_to.sums_Nil [of "yields prog ex_cfg fs utf8"]
  show "scan_yields prog ex_cfg fs utf8 M"
    by (simp add: scan_yields_def ex_seeded [of fs, OF assms])
qed

lemma ex_output_two:
  "scan_output Landrys ex_cfg ex_fs ex_utf8 2 ex_sched =
     Some [header Landrys, ex_line_c, ex_line_a]"
  by (simp add: scan_output_def ex_launch ex_run_complete ex_final_def ex_s23_def)

lemma ex_launch_single:
  "launch Landrys ex_cfg ex_fs (Suc 0) =
     Some \<lparr>dir_queue = [ex_A], active_dir_count = 1, done_flag = False,
            out_fp = [header Landrys], file_count = 0,
            workers = [\<lparr>pc = Waiting, local_out_buf = []\<rparr>], coordinator = Polling\<rparr>"
  by (simp add: launch_def ex_seeded [of ex_fs, OF ex_fs_simps(1)])

lemma ex_output_single:
  "scan_output Landrys ex_cfg ex_fs ex_utf8 1 ex_sched_single =
     Some [header Landrys, ex_line_a, ex_line_c]"
  by (simp add: scan_output_def ex_launch_single ex_sched_single_def step_defs ex_facts)

section \<open>The output does not depend on the worker pool\<close>

text \<open>
  The lines of a scan are those of the sequential reading above: one line for every listed
  file that lies in a directory the traversal enumerates (a directory seeded from the root, or
  a subdirectory enqueued below one), passes the extension filter and whose conversion yields
  bytes. The output of any complete run, with any number of workers and under any schedule,
  is the header followed by exactly these lines, each as often as the sequential reading
  produces it; so two complete runs differ only in the order of their lines.
\<close>

lemma output_independent_of_worker_pool:
  assumes "scan_yields prog cfg fs utf8 M"
    and "scan_output prog cfg fs utf8 n1 sched1 = Some out1"
    and "scan_output prog cfg fs utf8 n2 sched2 = Some out2"
  shows "mset out1 = add_mset (header prog) M \<and> mset out1 = mset out2"
proof -
  from scan_output_lines [OF assms(1,2)] mset_hd_tl [of out1]
  have 1: "mset out1 = add_mset (header prog) M" by simp
  from scan_output_lines [OF assms(1,3)] mset_hd_tl [of out2]
  have 2: "mset out2 = add_mset (header prog) M" by simp
  from 1 2 show ?thesis by simp
qed

lemma output_independent_of_worker_pool_example:
  "scan_yields Landrys ex_cfg ex_fs ex_utf8 {#ex_line_a, ex_line_c#} \<and>
   scan_output Landrys ex_cfg ex_fs ex_utf8 2 ex_sched =
     Some [header Landrys, ex_line_c, ex_line_a] \<and>
   scan_output Landrys ex_cfg ex_fs ex_utf8 1 ex_sched_single =
     Some [header Landrys, ex_line_a, ex_line_c] \<and>
   mset [header Landrys, ex_line_c, ex_line_a] =
     add_mset (header Landrys) {#ex_line_a, ex_line_c#} \<and>
   mset [header Landrys, ex_line_c, ex_line_a] = mset [header Landrys, ex_line_a, ex_line_c]"
proof -
  have y: "scan_yields Landrys ex_cfg ex_fs ex_utf8 {#ex_line_a, ex_line_c#}"
    using ex_yields_A by (simp add: ex_scan_yields [of ex_fs, OF ex_fs_simps(1)])
  from output_independent_of_worker_pool [OF y ex_output_two ex_output_single]
    y ex_output_two ex_output_single
  show ?thesis by blast
qed

section \<open>Files directly in the root\<close>

lemma fs_flat_root:
  "fs_flat (L ''C:'' @ star_pattern) = Some [ex_dir ''.'', ex_dir ''..'', ex_file ''file1.txt'']"
  "fs_flat (L ''C:'' @ backslash @ L ''.'' @ star_pattern) =
     Some [ex_dir ''.'', ex_dir ''..'', ex_file ''file1.txt'']"
  "fs_flat (L ''C:'' @ backslash @ L ''..'' @ star_pattern) = None"
  by (simp_all add: fs_flat_def L_def backslash_def star_pattern_def)

lemma cfg_all_simps [simp]:
  "ROOT_DIR cfg_all = L ''C:''" "PREFIX cfg_all = []" "file_types cfg_all = []"
  "OUTPUT_BUFFER_FLUSH_COUNT cfg_all = 5000"
  by (simp_all add: cfg_all_def)

text \<open>
  The first source lists the file all the same, by the way of the self-reference that its
  seeding enqueues: the single worker enumerates \<^verbatim>\<open>C:\.\<close> and writes the file as
  \<^verbatim>\<open>C:\.\file1.txt\<close>.
\<close>

lemma fast_scan4_lists_root_file_by_self_reference:
  "scan_output Fast_scan4 cfg_all fs_flat ex_utf8 1 ex_sched_flat =
     Some [header Fast_scan4,
           ex_utf8 (L ''C:'' @ backslash @ L ''.'' @ backslash @ L ''file1.txt'') @ [newline]]"
  by (simp add: scan_output_def launch_def initialize_directory_queue_def seed_prefix_ok_def
      ex_sched_flat_def step_defs fs_flat_root ex_dots extension_ok_def)

lemma ex_fs_B:
  "ex_fs (L ''C:'' @ backslash @ L ''B'' @ star_pattern) =
     Some [ex_dir ''.'', ex_dir ''..'', ex_file ''d.txt'']"
  by (simp add: ex_fs_def L_def backslash_def star_pattern_def)

lemma ex_output_all:
  "scan_output Landrys cfg_all ex_fs ex_utf8 1 ex_sched_all =
     Some [header Landrys, ex_line_a, ex_line_b, ex_line_d, ex_line_c]"
  by (simp add: scan_output_def launch_def initialize_directory_queue_def seed_prefix_ok_def
      pruned_def extension_ok_def ex_sched_all_def step_defs ex_fs_simps ex_fs_B ex_dots)

lemma ex_line_root_differs:
  "ex_line_root \<notin> set [header Landrys, ex_line_a, ex_line_b, ex_line_d, ex_line_c]"
  by (simp add: ex_utf8_def L_def backslash_def header_def newline_def)

text \<open>
  C1. The sources do not write every file under the root that passes both filters: seeding
  looks at the directory entries of the root only, and nothing else ever handles the root's
  listing. With no prefix and no extension filter the file \<^verbatim>\<open>C:\file1.txt\<close> passes both
  filters and its path converts. On the example tree the last source lists the four files
  below \<^verbatim>\<open>A\<close> and \<^verbatim>\<open>B\<close> and not \<^verbatim>\<open>C:\file1.txt\<close>. On a root that holds nothing but the
  file the two later sources find no directory to seed and return with the header as the only
  line, for every size of the pool and every schedule.
\<close>

theorem root_level_file_is_not_written:
  "PREFIX cfg_all = [] \<and> file_types cfg_all = [] \<and>
   extension_ok Landrys cfg_all (ROOT_DIR cfg_all @ backslash @ cFileName (ex_file ''file1.txt'')) \<and>
   extension_ok Part_000 cfg_all (ROOT_DIR cfg_all @ backslash @ cFileName (ex_file ''file1.txt'')) \<and>
   ex_utf8 (ROOT_DIR cfg_all @ backslash @ cFileName (ex_file ''file1.txt'')) @ [newline] =
     ex_line_root \<and>
   ex_fs (ROOT_DIR cfg_all @ star_pattern) =
     Some [ex_dir ''.'', ex_dir ''..'', ex_dir ''A'', ex_dir ''B'', ex_file ''file1.txt''] \<and>
   scan_output Landrys cfg_all ex_fs ex_utf8 1 ex_sched_all =
     Some [header Landrys, ex_line_a, ex_line_b, ex_line_d, ex_line_c] \<and>
   ex_line_root \<notin> set [header Landrys, ex_line_a, ex_line_b, ex_line_d, ex_line_c] \<and>
   fs_flat (ROOT_DIR cfg_all @ star_pattern) =
     Some [ex_dir ''.'', ex_dir ''..'', ex_file ''file1.txt''] \<and>
   (\<forall>n sched. scan_output Landrys cfg_all fs_flat ex_utf8 n sched = Some [header Landrys]) \<and>
   (\<forall>n sched. scan_output Part_000 cfg_all fs_flat ex_utf8 n sched = Some [header Part_000])"
proof -
  have "scan_output Landrys cfg_all fs_flat ex_utf8 n sched = Some [header Landrys]"
    "scan_output Part_000 cfg_all fs_flat ex_utf8 n sched = Some [header Part_000]" for n sched
    by (simp_all add: fs_flat_root scan_output_def launch_def initialize_directory_queue_def
        ex_dots)
  moreover have "extension_ok Landrys cfg_all p" "extension_ok Part_000 cfg_all p" for p
    by (simp_all add: extension_ok_def)
  ultimately show ?thesis
    using ex_output_all ex_line_root_differs by (simp add: fs_flat_root ex_fs_simps)
qed

text \<open>
  Nor does any other complete run on the example tree write the file, whatever the pool and
  the schedule: all complete runs write the same lines.
\<close>

lemma root_level_file_is_in_no_complete_run:
  assumes "scan_output Landrys cfg_all ex_fs ex_utf8 n sched = Some out"
  shows "ex_line_root \<notin> set out"
proof -
  from scan_yields_total [OF ex_fs_finite] obtain M where
    "scan_yields Landrys cfg_all ex_fs ex_utf8 M"
    by blast
  from output_independent_of_worker_pool [OF this assms ex_output_all, THEN conjunct2]
  have "set out = set [header Landrys, ex_line_a, ex_line_b, ex_line_d, ex_line_c]"
    by (rule mset_eq_setD)
  with ex_line_root_differs show ?thesis
    by (simp only:) simp
qed

section \<open>The scenario with the directories A and B and a file in the root\<close>





lemma finished_cannot_move:
  assumes "shutdown_inv s" and "coordinator s = Finished"
  shows "sys_step prog cfg fs utf8 ev s = None"
proof (cases ev)
  case (Worker i)
  show ?thesis
  proof (cases "i < length (workers s)")
    case True
    with finished_all_exited [OF assms] have "pc (workers s ! i) = Exited"
      by simp
    with Worker True show ?thesis
      by (simp add: sys_step_def worker_step_def)
  next
    case False
    with Worker show ?thesis
      by (simp add: sys_step_def worker_step_def)
  qed
next
  case Coordinator
  with assms(2) show ?thesis
    by (simp add: sys_step_def coordinator_step_def)
qed

text \<open>From a state that satisfies the invariants every run can be brought to its end.\<close>

lemma run_can_be_completed:
  assumes wf: "wf (subdir_rel fs)"
  shows "counter_inv s \<and> shutdown_inv s \<Longrightarrow> listing_inv fs s \<Longrightarrow> workers s \<noteq> [] \<Longrightarrow>
         \<exists>rest t. exec prog cfg fs utf8 rest s = Some t \<and> final t"
proof (induction s rule: wf_induct_rule [OF wf_progress_order [OF wf]])
  case (1 s)
  show ?case
  proof (cases "coordinator s = Finished")
    case True
    with 1(2) have "final s"
      by (auto intro: finished_is_final)
    then have "exec prog cfg fs utf8 [] s = Some s \<and> final s" by simp
    then show ?thesis by blast
  next
    case False
    from some_thread_can_move [OF _ _ 1(4) False, of prog cfg fs utf8] 1(2)
    obtain ev s' where step: "sys_step prog cfg fs utf8 ev s = Some s'"
      by blast
    from sys_step_inv [OF step 1(2)] have inv': "counter_inv s' \<and> shutdown_inv s'" .
    from step 1(3) have linv': "listing_inv fs s'"
      by (cases ev)
        (auto simp: sys_step_def intro: worker_step_listing_inv coordinator_step_listing_inv)
    from sys_step_pool_size [OF step] 1(4) have pool': "workers s' \<noteq> []"
      by auto
    from 1(1) [OF sys_step_progress [OF step 1(3)] inv' linv' pool']
    obtain rest t where "exec prog cfg fs utf8 rest s' = Some t" "final t"
      by blast
    with step have "exec prog cfg fs utf8 (ev # rest) s = Some t \<and> final t"
      by simp
    then show ?thesis by blast
  qed
qed

lemma reachable_progress_inv:
  assumes "launch prog cfg fs n = Some s0" and "exec prog cfg fs utf8 sched s0 = Some s"
  shows "listing_inv fs s \<and> length (workers s) = n"
  using exec_progress_inv [OF assms(2)] launch_listing_inv [OF assms(1)] by simp

lemma reachable_run_completes:
  assumes "wf (subdir_rel fs)" and "0 < n" and "launch prog cfg fs n = Some s0"
    and run: "exec prog cfg fs utf8 sched s0 = Some s"
  shows "\<exists>rest t. exec prog cfg fs utf8 (sched @ rest) s0 = Some t \<and> final t"
proof -
  from reachable_inv [OF assms(3) run] have inv: "counter_inv s \<and> shutdown_inv s" .
  from reachable_progress_inv [OF assms(3) run] assms(2)
  have linv: "listing_inv fs s" and pool: "workers s \<noteq> []"
    by auto
  from run_can_be_completed [OF assms(1) inv linv pool, of prog cfg utf8]
  obtain rest t where "exec prog cfg fs utf8 rest s = Some t" "final t"
    by blast
  with run have "exec prog cfg fs utf8 (sched @ rest) s0 = Some t \<and> final t"
    by (simp add: exec_append)
  then show ?thesis by blast
qed

section \<open>Termination when every wake-up arrives\<close>

text \<open>
  What the termination protocol achieves when no wake-up is lost, that is, under the guard
  reading of the wait. Let the directory tree be finite (the subdirectory relation
  well-founded, every listing a finite list) and let the pool have at least one worker. Then
  the step relation on the states reachable from the launch state is well-founded: there is
  no infinite run. In a reachable state no thread can move if and only if the coordinator has
  finished, and then the done flag is set, the counter is 0, the queue is empty and every
  worker has exited. Every run, whatever the schedule so far, can be continued to that state.
\<close>

lemma guard_reading_terminates:
  assumes "wf (subdir_rel fs)" and "0 < n" and "launch prog cfg fs n = Some s0"
  shows "wf {(s', s). (\<exists>sched. exec prog cfg fs utf8 sched s0 = Some s) \<and>
                      (\<exists>ev. sys_step prog cfg fs utf8 ev s = Some s')} \<and>
         (\<forall>sched s. exec prog cfg fs utf8 sched s0 = Some s \<longrightarrow>
            ((\<forall>ev. sys_step prog cfg fs utf8 ev s = None) \<longleftrightarrow> coordinator s = Finished) \<and>
            (coordinator s = Finished \<longrightarrow> final s) \<and>
            (\<exists>rest t. exec prog cfg fs utf8 (sched @ rest) s0 = Some t \<and> final t))"
proof -
  let ?R = "{(s', s). (\<exists>sched. exec prog cfg fs utf8 sched s0 = Some s) \<and>
                      (\<exists>ev. sys_step prog cfg fs utf8 ev s = Some s')}"
  have "?R \<subseteq> progress_order fs"
    using reachable_progress_inv [OF assms(3)] by (auto intro: sys_step_progress)
  from wf_subset [OF wf_progress_order [OF assms(1)] this] have wfR: "wf ?R" .
  have reach: "((\<forall>ev. sys_step prog cfg fs utf8 ev s = None) \<longleftrightarrow> coordinator s = Finished) \<and>
      (coordinator s = Finished \<longrightarrow> final s) \<and>
      (\<exists>rest t. exec prog cfg fs utf8 (sched @ rest) s0 = Some t \<and> final t)"
    if run: "exec prog cfg fs utf8 sched s0 = Some s" for sched s
  proof -
    from reachable_inv [OF assms(3) run] have inv: "counter_inv s \<and> shutdown_inv s" .
    from reachable_progress_inv [OF assms(3) run] assms(2)
    have linv: "listing_inv fs s" and pool: "workers s \<noteq> []"
      by auto
    have "coordinator s = Finished" if "\<forall>ev. sys_step prog cfg fs utf8 ev s = None"
    proof (rule ccontr)
      assume "coordinator s \<noteq> Finished"
      from some_thread_can_move [OF _ _ pool this, of prog cfg fs utf8] inv that
      show False by auto
    qed
    moreover have "sys_step prog cfg fs utf8 ev s = None" if "coordinator s = Finished" for ev
      using finished_cannot_move [OF _ that] inv by blast
    moreover have "final s" if "coordinator s = Finished"
      using finished_is_final [OF _ _ that] inv by blast
    moreover note reachable_run_completes [OF assms run]
    ultimately show ?thesis by blast
  qed
  from wfR reach show ?thesis by blast
qed

lemma guard_reading_terminates_example:
  "wf (subdir_rel ex_fs) \<and> (0::nat) < 2 \<and> launch Landrys ex_cfg ex_fs 2 = Some ex_s0 \<and>
   exec Landrys ex_cfg ex_fs ex_utf8 ex_sched ex_s0 = Some ex_final \<and>
   coordinator ex_final = Finished \<and> final ex_final \<and>
   sys_step Landrys ex_cfg ex_fs ex_utf8 (Worker 0) ex_final = None \<and>
   sys_step Landrys ex_cfg ex_fs ex_utf8 Coordinator ex_final = None"
proof -
  have pool: "(0::nat) < 2" by simp
  have fin: "coordinator ex_final = Finished"
    by (simp add: ex_final_def)
  from guard_reading_terminates [OF ex_fs_finite pool ex_launch, of ex_utf8] ex_run_complete fin
  have "final ex_final \<and> (\<forall>ev. sys_step Landrys ex_cfg ex_fs ex_utf8 ev ex_final = None)"
    by blast
  with ex_fs_finite pool ex_launch ex_run_complete fin show ?thesis
    by simp
qed

section \<open>The wake-up that is missed\<close>

lemmas cv_step_defs = cv_sys_step_def cv_worker_step_def cv_coordinator_step_def q_m_held_def
  notify_one_def notify_all_def all_awake_def

lemma ex_cv_launch: "cv_launch Landrys ex_cfg ex_fs 2 = Some (all_awake False ex_s0)"
  by (simp add: cv_launch_def ex_launch)

lemma ex_cv_run_0_7:
  "cv_exec Landrys ex_cfg ex_fs ex_utf8
     [Worker 0, Worker 1, Worker 1, Worker 0, Worker 0, Worker 0, Worker 0, Worker 0, Worker 0]
     (all_awake False ex_s0) = Some (all_awake False ex_s7)"
  by (simp add: ex_s0_def ex_s7_def cv_step_defs step_defs ex_facts ex_entries)

lemma ex_run_7_17:
  "exec Landrys ex_cfg ex_fs ex_utf8
     [Worker 0, Worker 0, Worker 1, Worker 1, Worker 0, Worker 0, Worker 1, Worker 1, Worker 1,
      Worker 1] ex_s7 = Some ex_s17"
  using exec_chain [OF exec_one_worker [OF ex_step_7_8]
      exec_chain [OF exec_one_worker [OF ex_step_8_9]
        exec_chain [OF ex_run_9_12 exec_chain [OF exec_one_worker [OF ex_step_12_13]
          ex_run_13_17]]]]
  by simp

lemma ex_cv_run_7_17:
  "cv_exec Landrys ex_cfg ex_fs ex_utf8
     [Worker 0, Worker 0, Worker 1, Worker 1, Worker 0, Worker 0, Worker 1, Worker 1, Worker 1,
      Worker 1] (all_awake False ex_s7) = Some (all_awake False ex_s17)"
  using exec_workers_embeds [OF ex_run_7_17, of False] by simp

lemma ex_cv_run_17_parked:
  "cv_exec Landrys ex_cfg ex_fs ex_utf8
     [Worker 1, Worker 1, Coordinator, Worker 0, Coordinator, Coordinator]
     (all_awake False ex_s17) = Some ex_parked"
  by (simp add: ex_s17_def ex_s19_def ex_parked_def cv_step_defs step_defs)

lemma ex_cv_run_parked:
  "cv_exec Landrys ex_cfg ex_fs ex_utf8 ex_sched_window (all_awake False ex_s0) = Some ex_parked"
  using cv_exec_chain [OF ex_cv_run_0_7 cv_exec_chain [OF ex_cv_run_7_17 ex_cv_run_17_parked]]
  by (simp add: ex_sched_window_def)

lemma ex_cv_run_parked_hang:
  "cv_exec Landrys ex_cfg ex_fs ex_utf8 [Worker 0, Worker 1, Worker 1] ex_parked = Some ex_hang"
  by (simp add: ex_s19_def ex_parked_def ex_hang_def cv_step_defs step_defs)

lemma ex_cv_run_hang:
  "cv_exec Landrys ex_cfg ex_fs ex_utf8 ex_sched_hang (all_awake False ex_s0) = Some ex_hang"
  using cv_exec_chain [OF ex_cv_run_parked ex_cv_run_parked_hang]
  by (simp add: ex_sched_hang_def)

lemma ex_parked_lock:
  "cv_sys_step Landrys ex_cfg ex_fs ex_utf8 (Worker 1) ex_parked = None"
  by (simp add: ex_s19_def ex_parked_def cv_step_defs)

lemma ex_hang_stuck: "cv_sys_step Landrys ex_cfg ex_fs ex_utf8 ev ex_hang = None"
proof (cases ev)
  case (Worker i)
  consider "i = 0" | "i = 1" | "2 \<le> i" by linarith
  then have "cv_worker_step Landrys ex_cfg ex_fs ex_utf8 i ex_hang = None"
  proof cases
    case 1
    then show ?thesis by (simp add: ex_hang_def cv_worker_step_def)
  next
    case 2
    then show ?thesis by (simp add: ex_hang_def cv_worker_step_def worker_step_def)
  next
    case 3
    then show ?thesis by (simp add: ex_hang_def cv_worker_step_def)
  qed
  with Worker show ?thesis by (simp add: cv_sys_step_def)
next
  case Coordinator
  then show ?thesis
    by (simp add: cv_sys_step_def cv_coordinator_step_def coordinator_step_def ex_hang_def)
qed

lemma stuck_run_never_completes:
  assumes "cv_exec prog cfg fs utf8 sched t0 = Some t"
    and "\<And>ev. cv_sys_step prog cfg fs utf8 ev t = None"
    and "coordinator (shared t) \<noteq> Finished"
  shows "cv_exec prog cfg fs utf8 (sched @ rest) t0 = None \<or>
         (\<exists>t'. cv_exec prog cfg fs utf8 (sched @ rest) t0 = Some t' \<and>
            coordinator (shared t') \<noteq> Finished)"
  using assms by (cases rest) (simp_all add: cv_exec_append)

text \<open>
  C3. The sources do not keep the scan from hanging. \<^verbatim>\<open>main\<close> leaves its polling loop, and
  with it the scope of its lock on \<^verbatim>\<open>q_m\<close>, before it stores the done flag and calls
  \<^verbatim>\<open>notify_all\<close>. A worker that has tested its predicate under \<^verbatim>\<open>q_m\<close> while the flag
  was still false, and has not yet blocked, is not among the waiters that \<^verbatim>\<open>notify_all\<close>
  wakes; it blocks afterwards and nothing wakes it, so \<^verbatim>\<open>main\<close> waits in \<^verbatim>\<open>join\<close>
  for ever. In the run \<open>ex_sched_hang\<close> of the two workers on the example the wake-ups of the
  burst arrive, and the last one is missed by worker 0. After \<open>ex_sched_window\<close> the done flag
  is set and \<^verbatim>\<open>notify_all\<close> is behind, worker 0 still holds \<^verbatim>\<open>q_m\<close> on its way into the
  wait, and worker 1, woken, cannot take \<^verbatim>\<open>q_m\<close> yet. Three steps later the queue is empty,
  the counter is 0, worker 1 has exited, and worker 0 sleeps at the top of its loop with the
  line of \<^verbatim>\<open>C:\A\a.txt\<close> still in its buffer; no thread can take a step, and no
  continuation of the run completes the scan.
\<close>

theorem missed_wakeup_blocks_the_scan:
  "cv_launch Landrys ex_cfg ex_fs 2 = Some (all_awake False ex_s0) \<and>
   cv_exec Landrys ex_cfg ex_fs ex_utf8 ex_sched_window (all_awake False ex_s0) =
     Some ex_parked \<and>
   done_flag (shared ex_parked) \<and> notified ex_parked \<and> q_cv ex_parked ! 0 = Parking \<and>
   cv_sys_step Landrys ex_cfg ex_fs ex_utf8 (Worker 1) ex_parked = None \<and>
   cv_exec Landrys ex_cfg ex_fs ex_utf8 [Worker 0, Worker 1, Worker 1] ex_parked =
     Some ex_hang \<and>
   cv_exec Landrys ex_cfg ex_fs ex_utf8 ex_sched_hang (all_awake False ex_s0) = Some ex_hang \<and>
   dir_queue (shared ex_hang) = [] \<and> active_dir_count (shared ex_hang) = 0 \<and>
   done_flag (shared ex_hang) \<and> notified ex_hang \<and> coordinator (shared ex_hang) = Joining \<and>
   pc (workers (shared ex_hang) ! 0) = Waiting \<and> q_cv ex_hang ! 0 = Asleep \<and>
   pc (workers (shared ex_hang) ! 1) = Exited \<and>
   local_out_buf (workers (shared ex_hang) ! 0) = [ex_line_a] \<and>
   out_fp (shared ex_hang) = [header Landrys, ex_line_c] \<and>
   (\<forall>ev. cv_sys_step Landrys ex_cfg ex_fs ex_utf8 ev ex_hang = None) \<and>
   (\<forall>rest. cv_scan_output Landrys ex_cfg ex_fs ex_utf8 2 (ex_sched_hang @ rest) = None)"
proof -
  have fin: "coordinator (shared ex_hang) \<noteq> Finished"
    by (simp add: ex_hang_def)
  have "cv_scan_output Landrys ex_cfg ex_fs ex_utf8 2 (ex_sched_hang @ rest) = None" for rest
    using stuck_run_never_completes [OF ex_cv_run_hang ex_hang_stuck fin, of rest]
    by (auto simp: cv_scan_output_def ex_cv_launch)
  moreover have "dir_queue (shared ex_hang) = []" "active_dir_count (shared ex_hang) = 0"
    "done_flag (shared ex_hang)" "notified ex_hang" "coordinator (shared ex_hang) = Joining"
    "pc (workers (shared ex_hang) ! 0) = Waiting" "q_cv ex_hang ! 0 = Asleep"
    "pc (workers (shared ex_hang) ! 1) = Exited"
    "local_out_buf (workers (shared ex_hang) ! 0) = [ex_line_a]"
    "out_fp (shared ex_hang) = [header Landrys, ex_line_c]"
    by (simp_all add: ex_hang_def)
  moreover have "done_flag (shared ex_parked)" "notified ex_parked" "q_cv ex_parked ! 0 = Parking"
    by (simp_all add: ex_parked_def ex_s19_def)
  ultimately show ?thesis
    using ex_cv_launch ex_cv_run_parked ex_parked_lock ex_cv_run_parked_hang ex_cv_run_hang
      ex_hang_stuck
    by simp
qed

text \<open>
  The same can happen in every scan. Whenever \<^verbatim>\<open>main\<close> is about to leave its polling loop and
  a worker is at the top of its loop, five steps put that worker to sleep after the
  notification.
\<close>

lemma wakeup_can_be_missed:
  assumes "coordinator (shared t) = Polling" and "active_dir_count (shared t) = 0"
    and "dir_queue (shared t) = []" and "\<not> done_flag (shared t)" and "\<not> q_m_held t"
    and "i < length (workers (shared t))" and "i < length (q_cv t)" and "q_cv t ! i = Awake"
    and "pc (workers (shared t) ! i) = Waiting" and "\<not> notified t"
  shows "\<exists>t'. cv_exec prog cfg fs utf8
             [Coordinator, Worker i, Coordinator, Coordinator, Worker i] t = Some t' \<and>
           notified t' \<and> coordinator (shared t') = Joining \<and> done_flag (shared t') \<and>
           dir_queue (shared t') = [] \<and> workers (shared t') = workers (shared t) \<and>
           length (q_cv t') = length (q_cv t) \<and> q_cv t' ! i = Asleep"
  using assms
  by (simp add: cv_sys_step_def cv_coordinator_step_def coordinator_step_def cv_worker_step_def
      notify_all_def q_m_held_def)

text \<open>
  Once \<^verbatim>\<open>notify_all\<close> is behind and no directory is left, a worker that sleeps is never woken,
  and \<^verbatim>\<open>main\<close> never gets past \<^verbatim>\<open>join\<close>.
\<close>

lemma sleeper_stays_asleep_step:
  assumes step: "cv_sys_step prog cfg fs utf8 ev t = Some t'"
    and "notified t" and "coordinator (shared t) = Joining" and "done_flag (shared t)"
    and "dir_queue (shared t) = []" and "list_all (\<lambda>w. \<not> busy (pc w)) (workers (shared t))"
    and "i < length (workers (shared t))" and "i < length (q_cv t)" and "q_cv t ! i = Asleep"
    and "pc (workers (shared t) ! i) = Waiting"
  shows "notified t' \<and> coordinator (shared t') = Joining \<and> done_flag (shared t') \<and>
         dir_queue (shared t') = [] \<and> list_all (\<lambda>w. \<not> busy (pc w)) (workers (shared t')) \<and>
         i < length (workers (shared t')) \<and> i < length (q_cv t') \<and> q_cv t' ! i = Asleep \<and>
         pc (workers (shared t') ! i) = Waiting"
proof (cases ev)
  case Coordinator
  from assms(7,10) have "\<not> list_all (\<lambda>w. pc w = Exited) (workers (shared t))"
    by (auto simp: list_all_length)
  with step Coordinator assms(2,3) show ?thesis
    by (simp add: cv_sys_step_def cv_coordinator_step_def coordinator_step_def)
next
  case (Worker j)
  with step have w: "cv_worker_step prog cfg fs utf8 j t = Some t'"
    by (simp add: cv_sys_step_def)
  then have j: "j < length (workers (shared t))" "j < length (q_cv t)"
    by (auto simp: cv_worker_step_def split: if_splits)
  from assms(6) j have nb: "\<not> busy (pc (workers (shared t) ! j))"
    by (simp add: list_all_length)
  show ?thesis
  proof (cases "q_cv t ! j")
    case Asleep
    with w j show ?thesis by (simp add: cv_worker_step_def)
  next
    case Parking
    with w j have "t' = t\<lparr>q_cv := (q_cv t)[j := Asleep]\<rparr>"
      by (simp add: cv_worker_step_def)
    moreover from Parking assms(9) have "j \<noteq> i" by auto
    ultimately show ?thesis
      using assms(2-10) by simp
  next
    case Awake
    with assms(9) have ji: "j \<noteq> i" by auto
    show ?thesis
    proof (cases "pc (workers (shared t) ! j)")
      case Waiting
      with w j Awake assms(4,5) have "t' = t\<lparr>shared := set_pc j Leaving (shared t)\<rparr>"
        by (auto simp: cv_worker_step_def worker_step_def split: if_splits)
      with assms(2-10) ji j show ?thesis
        by (auto simp: set_pc_def list_all_length nth_list_update busy_def)
    next
      case (Holding d)
      with nb show ?thesis by (simp add: busy_def)
    next
      case (Enumerating d es)
      with nb show ?thesis by (simp add: busy_def)
    next
      case Leaving
      with w j Awake have "t' = t\<lparr>shared := set_pc j Exited (final_flush j (shared t))\<rparr>"
        by (auto simp: cv_worker_step_def worker_step_def)
      with assms(2-10) ji j show ?thesis
        by (auto simp: set_pc_def final_flush_def set_buf_def Let_def list_all_length
            nth_list_update busy_def)
    next
      case Exited
      with w j Awake show ?thesis
        by (simp add: cv_worker_step_def worker_step_def)
    qed
  qed
qed

lemma sleeper_stays_asleep:
  "cv_exec prog cfg fs utf8 sched t = Some t' \<Longrightarrow>
   notified t \<Longrightarrow> coordinator (shared t) = Joining \<Longrightarrow> done_flag (shared t) \<Longrightarrow>
   dir_queue (shared t) = [] \<Longrightarrow> list_all (\<lambda>w. \<not> busy (pc w)) (workers (shared t)) \<Longrightarrow>
   i < length (workers (shared t)) \<Longrightarrow> i < length (q_cv t) \<Longrightarrow> q_cv t ! i = Asleep \<Longrightarrow>
   pc (workers (shared t) ! i) = Waiting \<Longrightarrow>
   coordinator (shared t') = Joining \<and> q_cv t' ! i = Asleep \<and>
   pc (workers (shared t') ! i) = Waiting"
proof (induction sched arbitrary: t)
  case Nil
  then show ?case by simp
next
  case (Cons ev sched)
  from Cons.prems(1) obtain t1 where t1: "cv_sys_step prog cfg fs utf8 ev t = Some t1"
    and rest: "cv_exec prog cfg fs utf8 sched t1 = Some t'"
    by (auto split: option.splits)
  from sleeper_stays_asleep_step [OF t1 Cons.prems(2-10)] Cons.IH [OF rest]
  show ?case by blast
qed

lemma first_coordinator_step:
  "exec prog cfg fs utf8 sched s = Some t \<Longrightarrow> coordinator s = Polling \<Longrightarrow>
   coordinator t \<noteq> Polling \<Longrightarrow>
   \<exists>pre q. Coordinator \<notin> set pre \<and> exec prog cfg fs utf8 pre s = Some q \<and>
     coordinator q = Polling \<and> active_dir_count q = 0 \<and> dir_queue q = []"
proof (induction sched arbitrary: s)
  case Nil
  then show ?case by simp
next
  case (Cons ev sched)
  from Cons.prems(1) obtain s1 where s1: "sys_step prog cfg fs utf8 ev s = Some s1"
    and rest: "exec prog cfg fs utf8 sched s1 = Some t"
    by (auto split: option.splits)
  show ?case
  proof (cases ev)
    case Coordinator
    with s1 Cons.prems(2) have "active_dir_count s = 0 \<and> dir_queue s = []"
      by (auto simp: sys_step_def coordinator_step_def split: if_splits)
    with Cons.prems(2) have "Coordinator \<notin> set [] \<and> exec prog cfg fs utf8 [] s = Some s \<and>
        coordinator s = Polling \<and> active_dir_count s = 0 \<and> dir_queue s = []"
      by simp
    then show ?thesis by blast
  next
    case (Worker i)
    with s1 have w: "worker_step prog cfg fs utf8 i s = Some s1"
      by (simp add: sys_step_def)
    from worker_step_coordinator [OF w] Cons.prems(2) have "coordinator s1 = Polling"
      by simp
    from Cons.IH [OF rest this Cons.prems(3)] obtain pre q where
      pre: "Coordinator \<notin> set pre" "exec prog cfg fs utf8 pre s1 = Some q"
        "coordinator q = Polling \<and> active_dir_count q = 0 \<and> dir_queue q = []"
      by blast
    with s1 Worker have "Coordinator \<notin> set (ev # pre) \<and>
        exec prog cfg fs utf8 (ev # pre) s = Some q \<and>
        coordinator q = Polling \<and> active_dir_count q = 0 \<and> dir_queue q = []"
      by simp
    then show ?thesis by blast
  qed
qed

text \<open>
  So on every finite tree, for every pool, some run of the scan never completes: the run under
  the guard reading that brings \<^verbatim>\<open>main\<close> to the end of its polling loop, followed by the five
  steps above for the first worker.
\<close>

lemma every_scan_can_hang:
  assumes "wf (subdir_rel fs)" and "0 < n" and "launch prog cfg fs n = Some s0"
  shows "\<exists>sched t. cv_exec prog cfg fs utf8 sched (all_awake False s0) = Some t \<and>
           (\<forall>rest. cv_scan_output prog cfg fs utf8 n (sched @ rest) = None)"
proof -
  have "exec prog cfg fs utf8 [] s0 = Some s0" by simp
  from reachable_run_completes [OF assms this]
  obtain rest t where "exec prog cfg fs utf8 rest s0 = Some t" and "final t"
    by auto
  moreover from \<open>final t\<close> have "coordinator t \<noteq> Polling"
    by (simp add: final_def)
  ultimately obtain pre q where pre: "Coordinator \<notin> set pre"
    and run: "exec prog cfg fs utf8 pre s0 = Some q"
    and q: "coordinator q = Polling" "active_dir_count q = 0" "dir_queue q = []"
    using first_coordinator_step [OF _ launch_coordinator [OF assms(3)]] by blast
  from reachable_inv [OF assms(3) run] have cinv: "counter_inv q" and sinv: "shutdown_inv q"
    by simp_all
  from reachable_progress_inv [OF assms(3) run] assms(2) have len: "0 < length (workers q)"
    by simp
  from cinv q have "in_flight q = 0"
    by (simp add: counter_inv_def)
  then have idle: "list_all (\<lambda>w. \<not> busy (pc w)) (workers q)"
    by (auto simp: in_flight_def pcs_def list_all_iff filter_empty_conv)
  from sinv q have nd: "\<not> done_flag q"
    by (simp add: shutdown_inv_def)
  with sinv len have "pc (workers q ! 0) \<noteq> Leaving" "pc (workers q ! 0) \<noteq> Exited"
    by (auto simp: shutdown_inv_def pcs_def)
  moreover from idle len have "\<not> busy (pc (workers q ! 0))"
    by (simp add: list_all_length)
  ultimately have w0: "pc (workers q ! 0) = Waiting"
    by (cases "pc (workers q ! 0)") (simp_all add: busy_def)
  from exec_workers_embeds [OF run pre, of False]
  have crun: "cv_exec prog cfg fs utf8 pre (all_awake False s0) = Some (all_awake False q)" .
  from wakeup_can_be_missed [of "all_awake False q" 0 prog cfg fs utf8] q nd len w0
  obtain t' where five: "cv_exec prog cfg fs utf8
        [Coordinator, Worker 0, Coordinator, Coordinator, Worker 0] (all_awake False q) = Some t'"
    and t': "notified t'" "coordinator (shared t') = Joining" "done_flag (shared t')"
      "dir_queue (shared t') = []" "workers (shared t') = workers q"
      "length (q_cv t') = length (q_cv (all_awake False q))" "q_cv t' ! 0 = Asleep"
    by auto
  let ?sched = "pre @ [Coordinator, Worker 0, Coordinator, Coordinator, Worker 0]"
  from cv_exec_chain [OF crun five]
  have hang: "cv_exec prog cfg fs utf8 ?sched (all_awake False s0) = Some t'" .
  have ext: "cv_exec prog cfg fs utf8 (?sched @ rest) (all_awake False s0) =
      cv_exec prog cfg fs utf8 rest t'" for rest
    unfolding cv_exec_append [of prog cfg fs utf8 ?sched] hang by simp
  have "cv_scan_output prog cfg fs utf8 n (?sched @ rest) = None" for rest
  proof (cases "cv_exec prog cfg fs utf8 rest t'")
    case None
    with ext [of rest] assms(3) show ?thesis
      by (simp add: cv_scan_output_def cv_launch_def)
  next
    case (Some t'')
    from sleeper_stays_asleep [OF Some t'(1-4), of 0] idle len w0 t'(5-7)
    have "coordinator (shared t'') = Joining"
      by simp
    with ext [of rest] Some assms(3) show ?thesis
      by (simp add: cv_scan_output_def cv_launch_def)
  qed
  with hang show ?thesis by blast
qed

section \<open>Directories that cannot be enumerated\<close>







end
